theory Spec2Isabelle
  imports Main "HOL-Library.Sublist"
begin

section \<open>Python values and exceptions\<close>

text \<open>
  A Python \<open>str\<close> is modelled as a \<^typ>\<open>string\<close>, a list of 8-bit characters. For
  ASCII text that is one character for every code point, and the model is exact there;
  every statement below is evaluated on ASCII text. Beyond ASCII the model and Python
  part: a code point above 127 that a JSON escape denotes is held as its UTF-8 bytes
  (\<open>py_chr\<close>), so it counts as two to four characters where Python counts one, and the
  character classes used for wrapping (\<open>py_isspace\<close>, \<open>is_word_char\<close>, \<open>is_letter\<close>) are the
  ASCII ones. Exceptions are values: a function that can raise returns
  \<open>py_error + 'a\<close>, with \<open>Inl\<close> for the exception.
\<close>

datatype py_error =
    JSONDecodeError
  | KeyError
  | TypeError
  | AttributeError
  | IndexError
  | ValueError
  | RecursionError
  | OSError
  | ProviderError

subsection \<open>String primitives used by the generator\<close>

text \<open>\<open>s.find(c)\<close> and \<open>s.rfind(c)\<close> for a one-character pattern: the index of the
  first (last) occurrence, or \<open>-1\<close>.\<close>

fun find_from :: "char \<Rightarrow> string \<Rightarrow> nat \<Rightarrow> int" where
  "find_from c [] i = -1"
| "find_from c (x # xs) i = (if x = c then int i else find_from c xs (Suc i))"

definition py_find :: "string \<Rightarrow> char \<Rightarrow> int" where
  "py_find s c = find_from c s 0"

definition py_rfind :: "string \<Rightarrow> char \<Rightarrow> int" where
  "py_rfind s c =
     (let r = find_from c (rev s) 0 in if r < 0 then -1 else int (length s) - 1 - r)"

text \<open>\<open>s[a:b]\<close>: a negative bound counts from the end, and both bounds are clamped
  to the string.\<close>

definition slice_bound :: "nat \<Rightarrow> int \<Rightarrow> nat" where
  "slice_bound n i = (if i < 0 then nat (max 0 (int n + i)) else min n (nat i))"

definition py_slice :: "'a list \<Rightarrow> int \<Rightarrow> int \<Rightarrow> 'a list" where
  "py_slice s a b =
     (let lo = slice_bound (length s) a; hi = slice_bound (length s) b
      in take (hi - lo) (drop lo s))"

text \<open>\<open>s.split(sep)\<close> for a non-empty separator: the pieces between the
  non-overlapping occurrences of \<open>sep\<close>, found left to right. An empty separator raises
  \<open>ValueError\<close>.\<close>

function split_from :: "string \<Rightarrow> string \<Rightarrow> string \<Rightarrow> string list" where
  "split_from sep cur s =
     (if sep = [] \<or> s = [] then [rev cur]
      else if prefix sep s then rev cur # split_from sep [] (drop (length sep) s)
      else split_from sep (hd s # cur) (tl s))"
  by pat_completeness auto
termination
  by (relation "measure (\<lambda>(sep, cur, s). length s)") auto

declare split_from.simps [simp del]

definition py_split :: "string \<Rightarrow> string \<Rightarrow> py_error + string list" where
  "py_split s sep = (if sep = [] then Inl ValueError else Inr (split_from sep [] s))"

text \<open>\<open>sep.join(xs)\<close>.\<close>

fun py_join :: "string \<Rightarrow> string list \<Rightarrow> string" where
  "py_join sep [] = []"
| "py_join sep [x] = x"
| "py_join sep (x # y # ys) = x @ sep @ py_join sep (y # ys)"

text \<open>\<open>s.replace(a, b)\<close> for one-character \<open>a\<close> and \<open>b\<close>.\<close>

definition py_replace :: "string \<Rightarrow> char \<Rightarrow> char \<Rightarrow> string" where
  "py_replace s a b = map (\<lambda>c. if c = a then b else c) s"

text \<open>\<open>str(n)\<close> for an integer: its decimal numeral.\<close>

definition digit_char :: "nat \<Rightarrow> char" where
  "digit_char d = ''0123456789'' ! (d mod 10)"

function str_nat :: "nat \<Rightarrow> string" where
  "str_nat n = (if n < 10 then [digit_char n] else str_nat (n div 10) @ [digit_char (n mod 10)])"
  by pat_completeness auto
termination
  by (relation "measure id") auto

declare str_nat.simps [simp del]

definition str_int :: "int \<Rightarrow> string" where
  "str_int i = (if i < 0 then CHR ''-'' # str_nat (nat (- i)) else str_nat (nat i))"

text \<open>\<open>os.path.join\<close> on POSIX, for two components, and for the three the generator
  passes.\<close>

definition path_join :: "string \<Rightarrow> string \<Rightarrow> string" where
  "path_join a b =
     (if b \<noteq> [] \<and> hd b = CHR ''/'' then b
      else if a = [] \<or> last a = CHR ''/'' then a @ b
      else a @ ''/'' @ b)"

definition path_join3 :: "string \<Rightarrow> string \<Rightarrow> string \<Rightarrow> string" where
  "path_join3 a b c = path_join (path_join a b) c"

subsection \<open>Title sanitization\<close>

text \<open>
  \<^verbatim>\<open>replace_special_chars = lambda s: re.sub(r'[?;:%#@*&\^$!<>,\\/]+', ' ', s)\<close>

  The character class lists sixteen characters; the \<open>+\<close> makes one match of every
  maximal run of them, and each match is replaced by one space.
\<close>

definition special_chars :: "char list" where
  "special_chars = ''?;:%#@*&^$!<>,'' @ [CHR 0x5C] @ ''/''"

definition is_special :: "char \<Rightarrow> bool" where
  "is_special c = (c \<in> set special_chars)"

function replace_special_chars :: "string \<Rightarrow> string" where
  "replace_special_chars [] = []"
| "replace_special_chars (c # cs) =
     (if is_special c then CHR '' '' # replace_special_chars (dropWhile is_special cs)
      else c # replace_special_chars cs)"
  by pat_completeness auto
termination
  by (relation "measure length") (auto simp: less_Suc_eq_le length_dropWhile_le)

section \<open>Decoded JSON values\<close>

text \<open>
  What \<open>json.loads\<close> returns: \<open>None\<close>, a \<open>bool\<close>, a number, a \<open>str\<close>, a \<open>list\<close> or a
  \<open>dict\<close>. A number keeps its lexeme (the generator never computes with one). A \<open>dict\<close>
  keeps the pairs in the order they were read: a later pair with the same key overrides an
  earlier one, as \<open>dict(pairs)\<close> does.
\<close>

datatype json =
    JNull
  | JBool bool
  | JNumber string
  | JString string
  | JArray "json list"
  | JObject "(string \<times> json) list"

definition dict_get :: "(string \<times> json) list \<Rightarrow> string \<Rightarrow> json option" where
  "dict_get pairs k = map_of (rev pairs) k"

text \<open>\<open>obj[key]\<close> with a \<open>str\<close> key.\<close>

fun getitem_key :: "json \<Rightarrow> string \<Rightarrow> py_error + json" where
  "getitem_key (JObject pairs) k =
     (case dict_get pairs k of None \<Rightarrow> Inl KeyError | Some v \<Rightarrow> Inr v)"
| "getitem_key v k = Inl TypeError"

text \<open>\<open>len(obj)\<close>.\<close>

fun py_len :: "json \<Rightarrow> py_error + nat" where
  "py_len (JArray xs) = Inr (length xs)"
| "py_len (JString s) = Inr (length s)"
| "py_len (JObject pairs) = Inr (length (remdups (map fst pairs)))"
| "py_len v = Inl TypeError"

text \<open>Subscripting a \<open>list\<close> or a \<open>str\<close> with an \<open>int\<close>: positions \<open>0\<close> to \<open>len - 1\<close> read
  from the front, \<open>-1\<close> down to \<open>-len\<close> read from the back, and every other subscript
  raises \<open>IndexError\<close>.\<close>

definition seq_index :: "'a list \<Rightarrow> int \<Rightarrow> py_error + 'a" where
  "seq_index xs i =
     (if 0 \<le> i \<and> i < int (length xs) then Inr (xs ! nat i)
      else if i < 0 \<and> - i \<le> int (length xs) then Inr (xs ! nat (int (length xs) + i))
      else Inl IndexError)"

text \<open>\<open>obj[i]\<close> with an \<open>int\<close> index. The keys of a decoded object are strings, so an
  \<open>int\<close> is never among them.\<close>

fun getitem_index :: "json \<Rightarrow> int \<Rightarrow> py_error + json" where
  "getitem_index (JArray xs) i = seq_index xs i"
| "getitem_index (JString s) i =
     (case seq_index s i of Inl e \<Rightarrow> Inl e | Inr c \<Rightarrow> Inr (JString [c]))"
| "getitem_index (JObject pairs) i = Inl KeyError"
| "getitem_index v i = Inl TypeError"

section \<open>The JSON decoder\<close>

text \<open>
  \<open>json.loads\<close> with its default decoder, after \<^verbatim>\<open>json/decoder.py\<close> and
  \<^verbatim>\<open>json/scanner.py\<close>: every syntax error is a \<open>JSONDecodeError\<close>. The mutual
  recursion of values, arrays and objects is made structural by a fuel argument, and a
  scan that runs out of fuel returns \<open>RecursionError\<close>. Every level of nesting takes two
  units of fuel and at least one character, and \<open>json_loads\<close> starts with more than twice
  the length of the text, so it never runs out (lemma \<open>json_loads_fuel\<close>, in the section
  on the decoder's fuel). The two limits of CPython itself are not modelled: the
  interpreter's recursion limit, which makes a very deeply nested text raise
  \<open>RecursionError\<close>, and the limit on the digits of an integer, which makes a numeral of
  more than 4300 digits raise \<open>ValueError\<close>. On such texts the model returns a value.
\<close>

definition is_json_ws :: "char \<Rightarrow> bool" where
  "is_json_ws c = (c \<in> set [CHR '' '', CHR 0x09, CHR 0x0A, CHR 0x0D])"

definition skip_ws :: "string \<Rightarrow> string" where
  "skip_ws s = dropWhile is_json_ws s"

definition is_digit :: "char \<Rightarrow> bool" where
  "is_digit c = (c \<in> set ''0123456789'')"

definition hex_value :: "char \<Rightarrow> nat option" where
  "hex_value c =
     (let n = (of_char c :: nat)
      in if 48 \<le> n \<and> n \<le> 57 then Some (n - 48)
         else if 97 \<le> n \<and> n \<le> 102 then Some (n - 87)
         else if 65 \<le> n \<and> n \<le> 70 then Some (n - 55)
         else None)"

text \<open>The four hexadecimal digits after \<^verbatim>\<open>\u\<close>.\<close>

definition decode_uXXXX :: "string \<Rightarrow> nat option" where
  "decode_uXXXX s =
     (case map hex_value (take 4 s) of
        [Some a, Some b, Some c, Some d] \<Rightarrow> Some (((a * 16 + b) * 16 + c) * 16 + d)
      | _ \<Rightarrow> None)"

text \<open>\<open>chr(n)\<close>, as the UTF-8 bytes of the code point: one character below 128, and
  two to four characters above, where Python's \<open>str\<close> has one.\<close>

definition py_chr :: "nat \<Rightarrow> string" where
  "py_chr n =
     (if n < 0x80 then [char_of n]
      else if n < 0x800 then [char_of (0xC0 + n div 64), char_of (0x80 + n mod 64)]
      else if n < 0x10000 then
        [char_of (0xE0 + n div 4096), char_of (0x80 + n div 64 mod 64),
         char_of (0x80 + n mod 64)]
      else
        [char_of (0xF0 + n div 262144), char_of (0x80 + n div 4096 mod 64),
         char_of (0x80 + n div 64 mod 64), char_of (0x80 + n mod 64)])"

text \<open>The escape table \<open>BACKSLASH\<close>.\<close>

definition backslash :: "char \<Rightarrow> char option" where
  "backslash c =
     (if c = CHR 0x22 then Some (CHR 0x22)
      else if c = CHR 0x5C then Some (CHR 0x5C)
      else if c = CHR ''/'' then Some (CHR ''/'')
      else if c = CHR ''b'' then Some (CHR 0x08)
      else if c = CHR ''f'' then Some (CHR 0x0C)
      else if c = CHR ''n'' then Some (CHR 0x0A)
      else if c = CHR ''r'' then Some (CHR 0x0D)
      else if c = CHR ''t'' then Some (CHR 0x09)
      else None)"

text \<open>\<open>scanstring\<close> (strict): the text after an opening quote, up to the closing
  quote. \<open>None\<close> is a \<open>JSONDecodeError\<close>: an unterminated string, a control character, or
  an invalid escape.\<close>

function scanstring :: "string \<Rightarrow> string \<Rightarrow> (string \<times> string) option" where
  "scanstring acc [] = None"
| "scanstring acc (c # cs) =
     (if c = CHR 0x22 then Some (acc, cs)
      else if c = CHR 0x5C then
        (case cs of
           [] \<Rightarrow> None
         | esc # rest \<Rightarrow>
             if esc = CHR ''u'' then
               (case decode_uXXXX rest of
                  None \<Rightarrow> None
                | Some uni \<Rightarrow>
                    if 0xD800 \<le> uni \<and> uni \<le> 0xDBFF
                       \<and> take 2 (drop 4 rest) = [CHR 0x5C, CHR ''u''] then
                      (case decode_uXXXX (drop 6 rest) of
                         None \<Rightarrow> None
                       | Some uni2 \<Rightarrow>
                           if 0xDC00 \<le> uni2 \<and> uni2 \<le> 0xDFFF then
                             scanstring
                               (acc @ py_chr (0x10000 + ((uni - 0xD800) * 1024 + (uni2 - 0xDC00))))
                               (drop 10 rest)
                           else scanstring (acc @ py_chr uni) (drop 4 rest))
                    else scanstring (acc @ py_chr uni) (drop 4 rest))
             else
               (case backslash esc of
                  None \<Rightarrow> None
                | Some ch \<Rightarrow> scanstring (acc @ [ch]) rest))
      else if (of_char c :: nat) < 0x20 then None
      else scanstring (acc @ [c]) cs)"
  by pat_completeness auto
termination
  by (relation "measure (\<lambda>(acc, s). length s)") auto

text \<open>\<open>NUMBER_RE\<close>: \<^verbatim>\<open>(-?(?:0|[1-9]\d*))(\.\d+)?([eE][-+]?\d+)?\<close>, matched at the start
  of the text; the lexeme and the rest.\<close>

definition match_exponent :: "string \<Rightarrow> string \<times> string" where
  "match_exponent s =
     (case s of
        [] \<Rightarrow> ([], s)
      | e # r \<Rightarrow>
          if e = CHR ''e'' \<or> e = CHR ''E'' then
            (let sg = (if r \<noteq> [] \<and> (hd r = CHR ''-'' \<or> hd r = CHR ''+'') then [hd r] else []);
                 r1 = drop (length sg) r
             in if r1 \<noteq> [] \<and> is_digit (hd r1)
                then (e # sg @ takeWhile is_digit r1, dropWhile is_digit r1)
                else ([], s))
          else ([], s))"

definition match_fraction :: "string \<Rightarrow> string \<times> string" where
  "match_fraction s =
     (case s of
        p # f # fs \<Rightarrow>
          if p = CHR ''.'' \<and> is_digit f
          then (p # takeWhile is_digit (f # fs), dropWhile is_digit (f # fs))
          else ([], s)
      | _ \<Rightarrow> ([], s))"

definition match_number :: "string \<Rightarrow> (string \<times> string) option" where
  "match_number s =
     (let sg = (if s \<noteq> [] \<and> hd s = CHR ''-'' then ''-'' else []);
          s1 = drop (length sg) s
      in case s1 of
           [] \<Rightarrow> None
         | d # ds \<Rightarrow>
             if \<not> is_digit d then None
             else
               (let ip = (if d = CHR ''0'' then [d] else d # takeWhile is_digit ds);
                    s2 = drop (length ip) s1;
                    (frac, s3) = match_fraction s2;
                    (ex, s4) = match_exponent s3
                in Some (sg @ ip @ frac @ ex, s4)))"

text \<open>
  \<open>scan_once\<close> reads one value at the start of the text. \<open>scan_object\<close> is the loop of
  \<open>JSONObject\<close>, entered just after the opening quote of a key with the pairs read so far;
  \<open>scan_array\<close> is the loop of \<open>JSONArray\<close>, entered at the start of an element.
\<close>

fun scan_once :: "nat \<Rightarrow> string \<Rightarrow> py_error + (json \<times> string)"
  and scan_object :: "nat \<Rightarrow> (string \<times> json) list \<Rightarrow> string \<Rightarrow> py_error + (json \<times> string)"
  and scan_array :: "nat \<Rightarrow> json list \<Rightarrow> string \<Rightarrow> py_error + (json \<times> string)"
where
  "scan_once 0 s = Inl RecursionError"
| "scan_once (Suc n) s =
     (case s of
        [] \<Rightarrow> Inl JSONDecodeError
      | c # cs \<Rightarrow>
          if c = CHR 0x22 then
            (case scanstring [] cs of
               None \<Rightarrow> Inl JSONDecodeError
             | Some (str, rest) \<Rightarrow> Inr (JString str, rest))
          else if c = CHR ''{'' then
            (case skip_ws cs of
               [] \<Rightarrow> Inl JSONDecodeError
             | d # ds \<Rightarrow>
                 if d = CHR ''}'' then Inr (JObject [], ds)
                 else if d = CHR 0x22 then scan_object n [] ds
                 else Inl JSONDecodeError)
          else if c = CHR ''['' then
            (case skip_ws cs of
               [] \<Rightarrow> Inl JSONDecodeError
             | d # ds \<Rightarrow>
                 if d = CHR '']'' then Inr (JArray [], ds)
                 else scan_array n [] (d # ds))
          else if take 4 s = ''null'' then Inr (JNull, drop 4 s)
          else if take 4 s = ''true'' then Inr (JBool True, drop 4 s)
          else if take 5 s = ''false'' then Inr (JBool False, drop 5 s)
          else
            (case match_number s of
               Some (lexeme, rest) \<Rightarrow> Inr (JNumber lexeme, rest)
             | None \<Rightarrow>
                 if take 3 s = ''NaN'' then Inr (JNumber ''NaN'', drop 3 s)
                 else if take 8 s = ''Infinity'' then Inr (JNumber ''Infinity'', drop 8 s)
                 else if take 9 s = ''-Infinity'' then Inr (JNumber ''-Infinity'', drop 9 s)
                 else Inl JSONDecodeError))"
| "scan_object 0 pairs s = Inl RecursionError"
| "scan_object (Suc n) pairs s =
     (case scanstring [] s of
        None \<Rightarrow> Inl JSONDecodeError
      | Some (key, s1) \<Rightarrow>
          (case skip_ws s1 of
             [] \<Rightarrow> Inl JSONDecodeError
           | colon # s2 \<Rightarrow>
               if colon \<noteq> CHR '':'' then Inl JSONDecodeError
               else
                 (case scan_once n (skip_ws s2) of
                    Inl e \<Rightarrow> Inl e
                  | Inr (v, s3) \<Rightarrow>
                      (case skip_ws s3 of
                         [] \<Rightarrow> Inl JSONDecodeError
                       | nextchar # s4 \<Rightarrow>
                           if nextchar = CHR ''}'' then Inr (JObject (pairs @ [(key, v)]), s4)
                           else if nextchar \<noteq> CHR '','' then Inl JSONDecodeError
                           else
                             (case skip_ws s4 of
                                [] \<Rightarrow> Inl JSONDecodeError
                              | q # s5 \<Rightarrow>
                                  if q \<noteq> CHR 0x22 then Inl JSONDecodeError
                                  else scan_object n (pairs @ [(key, v)]) s5)))))"
| "scan_array 0 vals s = Inl RecursionError"
| "scan_array (Suc n) vals s =
     (case scan_once n s of
        Inl e \<Rightarrow> Inl e
      | Inr (v, s1) \<Rightarrow>
          (case skip_ws s1 of
             [] \<Rightarrow> Inl JSONDecodeError
           | nextchar # s2 \<Rightarrow>
               if nextchar = CHR '']'' then Inr (JArray (vals @ [v]), s2)
               else if nextchar \<noteq> CHR '','' then Inl JSONDecodeError
               else scan_array n (vals @ [v]) (skip_ws s2)))"

text \<open>\<open>JSONDecoder.decode\<close>: white space, one value, white space, and nothing more.\<close>

definition json_loads :: "string \<Rightarrow> py_error + json" where
  "json_loads s =
     (case scan_once (Suc (2 * length s)) (skip_ws s) of
        Inl e \<Rightarrow> Inl e
      | Inr (obj, rest) \<Rightarrow> if skip_ws rest = [] then Inr obj else Inl JSONDecodeError)"

section \<open>Text wrapping\<close>

text \<open>
  \<open>textwrap.fill(text, width)\<close> with the defaults of \<open>TextWrapper\<close>, which is how the
  generator calls it: tabs expanded, white space replaced by spaces, long words broken
  (\<open>break_long_words=True\<close>), hyphenated words breakable (\<open>break_on_hyphens=True\<close>),
  white space dropped at the ends of a line, no indent and no line limit. The character
  classes of the chunking pattern are the ASCII ones.
\<close>

definition is_tw_space :: "char \<Rightarrow> bool" where
  "is_tw_space c = (c \<in> set [CHR 0x09, CHR 0x0A, CHR 0x0B, CHR 0x0C, CHR 0x0D, CHR '' ''])"

text \<open>\<open>str.expandtabs(tabsize)\<close>, with the column counted from the last line break.\<close>

fun expandtabs :: "nat \<Rightarrow> nat \<Rightarrow> string \<Rightarrow> string" where
  "expandtabs tabsize col [] = []"
| "expandtabs tabsize col (c # cs) =
     (if c = CHR 0x09 then
        (if tabsize > 0 then
           (let incr = tabsize - col mod tabsize
            in replicate incr (CHR '' '') @ expandtabs tabsize (col + incr) cs)
         else expandtabs tabsize col cs)
      else c # expandtabs tabsize (if c = CHR 0x0A \<or> c = CHR 0x0D then 0 else col + 1) cs)"

definition munge_whitespace :: "string \<Rightarrow> string" where
  "munge_whitespace text =
     map (\<lambda>c. if is_tw_space c then CHR '' '' else c) (expandtabs 8 0 text)"

text \<open>The classes of \<open>wordsep_re\<close>: \<^verbatim>\<open>\w\<close>, \<open>letter\<close> (\<^verbatim>\<open>[^\d\W]\<close>) and
  \<open>word_punct\<close> (\<^verbatim>\<open>[\w!"'&.,?]\<close>), over ASCII: a letter beyond ASCII is a word
  character for Python and not here.\<close>

definition is_word_char :: "char \<Rightarrow> bool" where
  "is_word_char c =
     (let n = (of_char c :: nat)
      in (48 \<le> n \<and> n \<le> 57) \<or> (65 \<le> n \<and> n \<le> 90) \<or> (97 \<le> n \<and> n \<le> 122) \<or> c = CHR ''_'')"

definition is_letter :: "char \<Rightarrow> bool" where
  "is_letter c = (is_word_char c \<and> \<not> is_digit c)"

definition is_word_punct :: "char \<Rightarrow> bool" where
  "is_word_punct c =
     (is_word_char c
      \<or> c \<in> set [CHR ''!'', CHR 0x22, CHR 0x27, CHR ''&'', CHR ''.'', CHR '','', CHR ''?''])"

text \<open>\<^verbatim>\<open>-{2,}\w\<close> at the start of the text: two or more hyphens, then a word
  character.\<close>

definition dashes_then_word :: "string \<Rightarrow> bool" where
  "dashes_then_word s =
     (let rest = dropWhile (\<lambda>c. c = CHR ''-'') s
      in 2 \<le> length (takeWhile (\<lambda>c. c = CHR ''-'') s) \<and> rest \<noteq> [] \<and> is_word_char (hd rest))"

text \<open>The context a breakable hyphen needs on each side: two letters, or a letter, a
  hyphen and a letter, read away from the hyphen (the look-behinds
  \<^verbatim>\<open>(?<=lt{2}-)\<close>, \<^verbatim>\<open>(?<=lt-lt-)\<close> and the look-ahead \<^verbatim>\<open>(?=lt-?lt)\<close>).\<close>

definition hyphen_context :: "string \<Rightarrow> bool" where
  "hyphen_context s =
     (case s of
        a # b # more \<Rightarrow>
          is_letter a \<and> (is_letter b \<or> (b = CHR ''-'' \<and> more \<noteq> [] \<and> is_letter (hd more)))
      | _ \<Rightarrow> False)"

text \<open>
  The third alternative of \<open>wordsep_re\<close>, a word: after the characters already taken
  (\<open>seen\<close>, the text so far in reverse), the shortest continuation that ends after a
  breakable hyphen, in front of white space or the end of the text, or in front of an
  em-dash.
\<close>

fun word_end :: "string \<Rightarrow> string \<Rightarrow> nat" where
  "word_end seen [] = 0"
| "word_end seen (c # cs) =
     (if c = CHR ''-'' \<and> hyphen_context seen \<and> hyphen_context cs then 1
      else if is_tw_space c then 0
      else if seen \<noteq> [] \<and> is_word_punct (hd seen) \<and> dashes_then_word (c # cs) then 0
      else Suc (word_end (c # seen) cs))"

text \<open>The length of the match of \<open>wordsep_re\<close> at the start of \<open>s\<close>: a run of white
  space, an em-dash between words, or a word.\<close>

definition chunk_length :: "string \<Rightarrow> string \<Rightarrow> nat" where
  "chunk_length seen s =
     (case s of
        [] \<Rightarrow> 0
      | c # cs \<Rightarrow>
          if is_tw_space c then length (takeWhile is_tw_space s)
          else if seen \<noteq> [] \<and> is_word_punct (hd seen) \<and> dashes_then_word s
            then length (takeWhile (\<lambda>x. x = CHR ''-'') s)
          else Suc (word_end (c # seen) cs))"

lemma chunk_length_pos: "s \<noteq> [] \<Longrightarrow> 0 < chunk_length seen s"
proof (cases s)
  case Nil
  then show "s \<noteq> [] \<Longrightarrow> ?thesis" by simp
next
  case (Cons c cs)
  have "0 < length (takeWhile is_tw_space (c # cs))" if "is_tw_space c"
    using that by simp
  moreover have "0 < length (takeWhile (\<lambda>x. x = CHR ''-'') (c # cs))"
    if "dashes_then_word (c # cs)"
    using that by (simp add: dashes_then_word_def Let_def split: if_splits)
  ultimately show ?thesis
    using Cons by (simp add: chunk_length_def)
qed

text \<open>\<open>_split\<close>: the matches of \<open>wordsep_re\<close> in order. Every position starts a match,
  so nothing lies between two matches.\<close>

function split_chunks :: "string \<Rightarrow> string \<Rightarrow> string list" where
  "split_chunks seen s =
     (if s = [] then []
      else (let n = chunk_length seen s
            in take n s # split_chunks (rev (take n s) @ seen) (drop n s)))"
  by pat_completeness auto
termination
proof (relation "measure (\<lambda>(seen, s). length s)")
  show "wf (measure (\<lambda>(seen, s). length s))" by simp
next
  fix seen s :: string and n
  assume "s \<noteq> []" and "n = chunk_length seen s"
  then have "0 < n" by (simp add: chunk_length_pos)
  with \<open>s \<noteq> []\<close> show "((rev (take n s) @ seen, drop n s), (seen, s))
      \<in> measure (\<lambda>(seen, s). length s)"
    by simp
qed

declare split_chunks.simps [simp del]

text \<open>\<open>chunk.strip() == ''\<close>, with the ASCII white space of \<open>str.isspace\<close>; the
  characters \<open>0x85\<close> and \<open>0xA0\<close>, which Python strips as well, are not among them.\<close>

definition py_isspace :: "char \<Rightarrow> bool" where
  "py_isspace c =
     (c \<in> set [CHR 0x09, CHR 0x0A, CHR 0x0B, CHR 0x0C, CHR 0x0D,
               CHR 0x1C, CHR 0x1D, CHR 0x1E, CHR 0x1F, CHR '' ''])"

definition is_blank :: "string \<Rightarrow> bool" where
  "is_blank chunk = list_all py_isspace chunk"

text \<open>The inner loop of \<open>_wrap_chunks\<close>: chunks move to the current line while they
  fit.\<close>

fun fill_line :: "nat \<Rightarrow> string list \<Rightarrow> nat \<Rightarrow> string list \<Rightarrow> string list \<times> nat \<times> string list" where
  "fill_line width cur_line cur_len [] = (cur_line, cur_len, [])"
| "fill_line width cur_line cur_len (c # cs) =
     (if cur_len + length c \<le> width
      then fill_line width (cur_line @ [c]) (cur_len + length c) cs
      else (cur_line, cur_len, c # cs))"

text \<open>\<open>_handle_long_word\<close> with \<open>break_long_words\<close> and \<open>break_on_hyphens\<close>: as much of
  the next chunk as fits goes on the current line, up to the last hyphen in that part
  when one has a non-hyphen to its left.\<close>

definition handle_long_word ::
  "string list \<Rightarrow> string list \<Rightarrow> nat \<Rightarrow> nat \<Rightarrow> string list \<times> string list" where
  "handle_long_word chunks cur_line cur_len width =
     (let space_left = (if width < 1 then 1 else int width - int cur_len);
          chunk = hd chunks;
          hyphen = py_rfind (py_slice chunk 0 space_left) (CHR ''-'');
          end = (if int (length chunk) > space_left \<and> hyphen > 0
                    \<and> list_ex (\<lambda>c. c \<noteq> CHR ''-'') (py_slice chunk 0 hyphen)
                 then hyphen + 1 else space_left)
      in (py_slice chunk end (int (length chunk)) # tl chunks,
          cur_line @ [py_slice chunk 0 end]))"

text \<open>One pass of the outer loop of \<open>_wrap_chunks\<close>: the lines so far and the chunks
  left, at the start and at the end of one line.\<close>

definition wrap_line :: "nat \<Rightarrow> string list \<Rightarrow> string list \<Rightarrow> string list \<times> string list" where
  "wrap_line width lines chunks =
     (let chunks1 = (if is_blank (hd chunks) \<and> lines \<noteq> [] then tl chunks else chunks);
          (cur_line, cur_len, chunks2) = fill_line width [] 0 chunks1;
          (chunks3, cur_line1) =
            (if chunks2 \<noteq> [] \<and> length (hd chunks2) > width
             then handle_long_word chunks2 cur_line cur_len width
             else (chunks2, cur_line));
          cur_line2 =
            (if cur_line1 \<noteq> [] \<and> is_blank (last cur_line1) then butlast cur_line1
             else cur_line1)
      in (if cur_line2 \<noteq> [] then lines @ [concat cur_line2] else lines, chunks3))"

definition chunks_size :: "string list \<Rightarrow> nat" where
  "chunks_size chunks = length (concat chunks) + length chunks"

text \<open>What one pass of the outer loop leaves is smaller than what it found.\<close>

lemma length_py_slice_le: "length (py_slice s a b) \<le> length s"
  by (simp add: py_slice_def Let_def)

lemma py_slice_from: "0 \<le> e \<Longrightarrow> py_slice s e (int (length s)) = drop (nat e) s"
  by (simp add: py_slice_def slice_bound_def Let_def min_def)

lemma py_slice_upto: "0 \<le> e \<Longrightarrow> py_slice s 0 e = take (nat e) s"
  by (simp add: py_slice_def slice_bound_def Let_def min_def)

lemma find_from_bounds: "find_from c s i = -1 \<or> (int i \<le> find_from c s i \<and> find_from c s i < int i + int (length s))"
  by (induction s arbitrary: i) (auto, force+)

lemma py_rfind_less: "py_rfind s c < int (length s)"
  using find_from_bounds [of c "rev s" 0] by (auto simp: py_rfind_def Let_def)

lemma fill_line_props:
  "fill_line width cl n cs = (cl', n', cs') \<Longrightarrow>
   cl @ cs = cl' @ cs'
   \<and> (n = length (concat cl) \<longrightarrow> n' = length (concat cl'))
   \<and> (n \<le> width \<longrightarrow> n' \<le> width)
   \<and> (cs' \<noteq> [] \<longrightarrow> width < n' + length (hd cs'))"
proof (induction width cl n cs rule: fill_line.induct)
  case (1 width cur_line cur_len)
  then show ?case by simp
next
  case (2 width cur_line cur_len c cs)
  then show ?case by (auto split: if_splits)
qed

lemma chunks_size_append: "chunks_size (xs @ ys) = chunks_size xs + chunks_size ys"
  by (simp add: chunks_size_def)

lemma chunks_size_Cons: "chunks_size (x # xs) = Suc (length x + chunks_size xs)"
  by (simp add: chunks_size_def)

lemma handle_long_word_size:
  assumes "handle_long_word chunks cur_line cur_len width = (chunks', cur_line')"
    and "chunks \<noteq> []"
  shows "chunks_size chunks' \<le> chunks_size chunks"
proof -
  obtain c cs where c: "chunks = c # cs" using assms(2) by (cases chunks) auto
  from assms(1) obtain e where "chunks' = py_slice c e (int (length c)) # cs"
    by (auto simp: handle_long_word_def Let_def c)
  then show ?thesis
    using length_py_slice_le [of c e "int (length c)"] by (simp add: c chunks_size_Cons)
qed

lemma handle_long_word_progress:
  assumes "handle_long_word chunks [] 0 width = (chunks', cur_line')"
    and "chunks \<noteq> []" and "width < length (hd chunks)"
  shows "chunks_size chunks' < chunks_size chunks"
proof -
  obtain c cs where c: "chunks = c # cs" using assms(2) by (cases chunks) auto
  from assms(1) obtain e where e: "chunks' = py_slice c e (int (length c)) # cs" "1 \<le> e"
    by (auto simp: handle_long_word_def Let_def c split: if_splits)
  from assms(3) c have "0 < length c" by auto
  with e(2) have "length (drop (nat e) c) < length c" by simp
  with e show ?thesis by (simp add: c chunks_size_Cons py_slice_from)
qed

lemma wrap_line_decreases:
  assumes "chunks \<noteq> []" and "wrap_line width lines chunks = (lines', chunks')"
  shows "chunks_size chunks' < chunks_size chunks"
proof -
  define chunks1 where "chunks1 = (if is_blank (hd chunks) \<and> lines \<noteq> [] then tl chunks else chunks)"
  obtain cur_line cur_len chunks2 where f: "fill_line width [] 0 chunks1 = (cur_line, cur_len, chunks2)"
    by (cases "fill_line width [] 0 chunks1") auto
  define r where "r = (if chunks2 \<noteq> [] \<and> length (hd chunks2) > width
             then handle_long_word chunks2 cur_line cur_len width
             else (chunks2, cur_line))"
  have res: "chunks' = fst r"
    using assms(2)
    by (simp add: wrap_line_def Let_def f [unfolded chunks1_def] r_def case_prod_beta
          cong: if_cong)
  from fill_line_props [OF f] have app: "chunks1 = cur_line @ chunks2"
    and len: "cur_len = length (concat cur_line)"
    and hd: "chunks2 \<noteq> [] \<longrightarrow> width < cur_len + length (hd chunks2)"
    by auto
  have s1: "chunks_size chunks1 \<le> chunks_size chunks"
    using assms(1) by (cases chunks) (auto simp: chunks1_def chunks_size_Cons)
  have s2: "chunks_size chunks2 \<le> chunks_size chunks1"
    by (simp add: app chunks_size_append)
  have s3: "chunks_size chunks' \<le> chunks_size chunks2"
  proof (cases "chunks2 \<noteq> [] \<and> length (hd chunks2) > width")
    case True
    then have "handle_long_word chunks2 cur_line cur_len width = (fst r, snd r)"
      by (simp add: r_def)
    from handle_long_word_size [OF this] True show ?thesis by (simp add: res)
  next
    case False
    then show ?thesis by (auto simp: res r_def)
  qed
  show ?thesis
  proof (cases "chunks1 = chunks")
    case False
    then have "chunks1 = tl chunks" by (simp add: chunks1_def split: if_splits)
    with assms(1) have "chunks_size chunks1 < chunks_size chunks"
      by (cases chunks) (auto simp: chunks_size_Cons)
    with s2 s3 show ?thesis by linarith
  next
    case same: True
    show ?thesis
    proof (cases "cur_line = []")
      case True
      with app same assms(1) have c2: "chunks2 = chunks" "chunks2 \<noteq> []" by simp_all
      from True len have l0: "cur_len = 0" by simp
      with hd c2 have long: "width < length (hd chunks2)" by simp
      with c2 have "handle_long_word chunks2 [] 0 width = (fst r, snd r)"
        by (simp add: r_def True l0)
      from handle_long_word_progress [OF this c2(2) long] show ?thesis
        by (simp add: res c2)
    next
      case False
      then have "chunks_size chunks2 < chunks_size chunks1"
        by (cases cur_line) (auto simp: app chunks_size_append chunks_size_Cons)
      with s1 s3 show ?thesis by linarith
    qed
  qed
qed

text \<open>\<open>_wrap_chunks\<close>: lines are made until no chunk is left. Every pass takes at least
  one character or one chunk, which is why the loop ends.\<close>

function wrap_chunks :: "nat \<Rightarrow> string list \<Rightarrow> string list \<Rightarrow> string list" where
  "wrap_chunks width lines chunks =
     (if chunks = [] then lines
      else (case wrap_line width lines chunks of
              (lines', chunks') \<Rightarrow> wrap_chunks width lines' chunks'))"
  by pat_completeness auto
termination
  by (relation "measure (\<lambda>(width, lines, chunks). chunks_size chunks)")
     (auto split: prod.splits intro: wrap_line_decreases)

declare wrap_chunks.simps [simp del]

text \<open>\<open>textwrap.wrap\<close> and \<open>textwrap.fill\<close>; a width of zero raises \<open>ValueError\<close>.\<close>

definition textwrap_wrap :: "string \<Rightarrow> nat \<Rightarrow> py_error + string list" where
  "textwrap_wrap text width =
     (let chunks = split_chunks [] (munge_whitespace text)
      in if width = 0 then Inl ValueError else Inr (wrap_chunks width [] chunks))"

definition textwrap_fill :: "string \<Rightarrow> nat \<Rightarrow> py_error + string" where
  "textwrap_fill text width =
     (case textwrap_wrap text width of
        Inl e \<Rightarrow> Inl e
      | Inr lines \<Rightarrow> Inr (py_join [CHR 0x0A] lines))"

section \<open>The story generator\<close>

subsection \<open>\<open>extract_story_elements\<close>\<close>

text \<open>
  The handler of \<open>JSONDecodeError\<close> and \<open>KeyError\<close> logs the error and raises it again, and
  any other exception leaves the function as well: every exception is the function's
  result.
\<close>

definition extract_story_elements :: "string \<Rightarrow> py_error + (json \<times> json \<times> json \<times> json)" where
  "extract_story_elements full_text =
     (let json_start = py_find full_text (CHR ''{'');
          json_end = py_rfind full_text (CHR ''}'') + 1;
          json_string = py_slice full_text json_start json_end
      in case json_loads json_string of
           Inl e \<Rightarrow> Inl e
         | Inr story_data \<Rightarrow>
             (case getitem_key story_data ''title'' of
                Inl e \<Rightarrow> Inl e
              | Inr title \<Rightarrow>
                  (case getitem_key story_data ''story'' of
                     Inl e \<Rightarrow> Inl e
                   | Inr story \<Rightarrow>
                       (case getitem_key story_data ''moral'' of
                          Inl e \<Rightarrow> Inl e
                        | Inr moral \<Rightarrow>
                            (case getitem_key story_data ''imagePrompts'' of
                               Inl e \<Rightarrow> Inl e
                             | Inr image_prompts \<Rightarrow>
                                 Inr (title, story, moral, image_prompts))))))"

subsection \<open>The world outside the generator\<close>

text \<open>
  \<open>process_text\<close> reads the clock, creates a directory, calls the image provider, draws
  with PIL and moves files. The outcome of each of these calls is decided outside the
  program, so the model takes them as parameters (\<open>env\<close>) and passes the state they change
  (\<open>world\<close>) explicitly: the directories created, the files written, and the requests made
  to the image provider.

  The body of \<open>generate_image\<close> is not part of the sources (it is a stub that refers to the
  author); \<open>provider\<close> stands for it: given the arguments of a call it returns the path of
  the saved image, or fails. \<open>py_str\<close> is \<open>str()\<close> on a value that is not a \<open>str\<close>.
\<close>

record world =
  dirs :: "string list"
  files :: "string list"
  requests :: "(string \<times> nat) list"

record env =
  clock :: int
  py_str :: "json \<Rightarrow> string"
  provider :: "string \<Rightarrow> string \<Rightarrow> string \<Rightarrow> string \<Rightarrow> nat \<Rightarrow> py_error + string"
  makedirs_error :: "string \<Rightarrow> py_error option"
  pil_error :: "string \<Rightarrow> string \<Rightarrow> string \<Rightarrow> py_error option"
  move_error :: "string \<Rightarrow> string \<Rightarrow> py_error option"

definition IMAGE_MODELS :: "string list" where
  "IMAGE_MODELS = [''prompthero/openjourney'', ''stabilityai/stable-diffusion-xl-base-1.0'']"

text \<open>\<open>os.makedirs(path, exist_ok=True)\<close>.\<close>

definition makedirs :: "env \<Rightarrow> string \<Rightarrow> world \<Rightarrow> (py_error + unit) \<times> world" where
  "makedirs env path w =
     (case makedirs_error env path of
        Some e \<Rightarrow> (Inl e, w)
      | None \<Rightarrow> (Inr (), w\<lparr>dirs := List.insert path (dirs w)\<rparr>))"

text \<open>\<open>shutil.move(src, dst)\<close>.\<close>

definition shutil_move :: "env \<Rightarrow> string \<Rightarrow> string \<Rightarrow> world \<Rightarrow> (py_error + string) \<times> world" where
  "shutil_move env src dst w =
     (case move_error env src dst of
        Some e \<Rightarrow> (Inl e, w)
      | None \<Rightarrow> (Inr dst, w\<lparr>files := List.insert dst (remove1 src (files w))\<rparr>))"

text \<open>\<open>generate_image(model, prompt, negative_prompt, title, image_index)\<close>: the request
  is made, and on success the image is saved and its path returned.\<close>

definition generate_image ::
  "env \<Rightarrow> string \<Rightarrow> string \<Rightarrow> string \<Rightarrow> string \<Rightarrow> nat \<Rightarrow> world \<Rightarrow> (py_error + string) \<times> world" where
  "generate_image env model prompt negative_prompt title image_index w =
     (let w1 = w\<lparr>requests := requests w @ [(prompt, image_index)]\<rparr>
      in case provider env model prompt negative_prompt title image_index of
           Inl e \<Rightarrow> (Inl e, w1)
         | Inr image_path \<Rightarrow> (Inr image_path, w1\<lparr>files := List.insert image_path (files w1)\<rparr>))"

subsection \<open>\<open>add_text_to_image\<close>\<close>

text \<open>
  The text is wrapped with \<^verbatim>\<open>textwrap.fill(text, width=40)\<close>; opening the image,
  measuring, drawing and saving are PIL's (\<open>pil_error\<close> says whether they fail on this
  image, wrapped text and output path). The handler logs and raises again.
\<close>

definition add_text_to_image ::
  "env \<Rightarrow> string \<Rightarrow> string \<Rightarrow> string \<Rightarrow> world \<Rightarrow> (py_error + string) \<times> world" where
  "add_text_to_image env image_path text output_path w =
     (case textwrap_fill text 40 of
        Inl e \<Rightarrow> (Inl e, w)
      | Inr wrapped_text \<Rightarrow>
          (case pil_error env image_path wrapped_text output_path of
             Some e \<Rightarrow> (Inl e, w)
           | None \<Rightarrow> (Inr output_path, w\<lparr>files := List.insert output_path (files w)\<rparr>)))"

subsection \<open>\<open>process_text\<close>\<close>

text \<open>The title: \<open>re.sub\<close> raises \<open>TypeError\<close> on a value that is not a \<open>str\<close>.\<close>

definition sanitize_title :: "json \<Rightarrow> py_error + string" where
  "sanitize_title title_raw =
     (case title_raw of JString s \<Rightarrow> Inr (replace_special_chars s) | _ \<Rightarrow> Inl TypeError)"

text \<open>\<^verbatim>\<open>sentences = story.split('. ')\<close>; a value that is not a \<open>str\<close> has no
  \<open>split\<close>.\<close>

definition split_story :: "json \<Rightarrow> py_error + string list" where
  "split_story story =
     (case story of JString s \<Rightarrow> py_split s ''. '' | _ \<Rightarrow> Inl AttributeError)"

text \<open>\<^verbatim>\<open>image_prompts[i // 3] if i // 3 < len(image_prompts) else image_prompts[-1]\<close>\<close>

definition select_prompt :: "json \<Rightarrow> nat \<Rightarrow> py_error + json" where
  "select_prompt image_prompts k =
     (case py_len image_prompts of
        Inl e \<Rightarrow> Inl e
      | Inr n \<Rightarrow>
          if k < n then getitem_index image_prompts (int k)
          else getitem_index image_prompts (- 1))"

text \<open>The f-string that makes the prompt sent to the image provider.\<close>

definition format_value :: "env \<Rightarrow> json \<Rightarrow> string" where
  "format_value env v = (case v of JString s \<Rightarrow> s | _ \<Rightarrow> py_str env v)"

definition new_prompt :: "env \<Rightarrow> string \<Rightarrow> json \<Rightarrow> string" where
  "new_prompt env combined prompt =
     ''Given the following story for context enclosed between the $ symbol: $''
     @ combined @ ''$,'' @ [CHR 0x0A] @ replicate 24 (CHR '' '')
     @ ''generate a children's story book style image with the following prompt: ''
     @ format_value env prompt"

text \<open>
  The first loop, \<^verbatim>\<open>for i in range(0, len(sentences), 3)\<close>, with its two lists. An
  exception of the prompt selection leaves the loop.
\<close>

function combine_sentences ::
  "env \<Rightarrow> json \<Rightarrow> string list \<Rightarrow> nat \<Rightarrow> string list \<Rightarrow> string list
   \<Rightarrow> py_error + (string list \<times> string list)" where
  "combine_sentences env image_prompts sentences i combined_sentences image_prompt_new =
     (if i < length sentences then
        (let combined = py_join ''. '' (py_slice sentences (int i) (int i + 3))
         in case select_prompt image_prompts (i div 3) of
              Inl e \<Rightarrow> Inl e
            | Inr prompt \<Rightarrow>
                combine_sentences env image_prompts sentences (i + 3)
                  (combined_sentences @ [combined])
                  (image_prompt_new @ [new_prompt env combined prompt]))
      else Inr (combined_sentences, image_prompt_new))"
  by pat_completeness auto
termination
  by (relation "measure (\<lambda>(env, image_prompts, sentences, i, cs, ps). length sentences - i)")
     auto

declare combine_sentences.simps [simp del]

text \<open>\<^verbatim>\<open>folder_name = title.replace(' ', '_') + '_' + str(int(time.time()))\<close> and
  \<^verbatim>\<open>output_dir = os.path.join('static', 'storybooks', folder_name)\<close>\<close>

definition folder_name :: "env \<Rightarrow> string \<Rightarrow> string" where
  "folder_name env title = py_replace title (CHR '' '') (CHR ''_'') @ ''_'' @ str_int (clock env)"

definition output_dir :: "env \<Rightarrow> string \<Rightarrow> string" where
  "output_dir env title = path_join3 ''static'' ''storybooks'' (folder_name env title)"

text \<open>The second loop: one image per prompt, in order.\<close>

fun generate_images ::
  "env \<Rightarrow> string \<Rightarrow> nat \<Rightarrow> string list \<Rightarrow> string list \<Rightarrow> world
   \<Rightarrow> (py_error + string list) \<times> world" where
  "generate_images env title i [] image_generated_paths w = (Inr image_generated_paths, w)"
| "generate_images env title i (prompt # rest) image_generated_paths w =
     (case generate_image env (IMAGE_MODELS ! 0) prompt [] title i w of
        (Inl e, w1) \<Rightarrow> (Inl e, w1)
      | (Inr image_path, w1) \<Rightarrow>
          generate_images env title (Suc i) rest (image_generated_paths @ [image_path]) w1)"

text \<open>The third loop, over \<^verbatim>\<open>zip(combined_sentences, image_generated_paths)\<close>: the
  text is drawn on the image, and the page is moved into the output directory.\<close>

definition page_name :: "nat \<Rightarrow> string" where
  "page_name i = ''image_new_'' @ str_nat i @ ''.png''"

fun compose_pages ::
  "env \<Rightarrow> string \<Rightarrow> nat \<Rightarrow> (string \<times> string) list \<Rightarrow> string list \<Rightarrow> world
   \<Rightarrow> (py_error + string list) \<times> world" where
  "compose_pages env out i [] combined_story_with_images w =
     (Inr combined_story_with_images, w)"
| "compose_pages env out i ((text, image_path) # rest) combined_story_with_images w =
     (case add_text_to_image env image_path text (page_name i) w of
        (Inl e, w1) \<Rightarrow> (Inl e, w1)
      | (Inr story_with_image, w1) \<Rightarrow>
          (let output_img_path = path_join out (page_name i)
           in case shutil_move env story_with_image output_img_path w1 of
                (Inl e, w2) \<Rightarrow> (Inl e, w2)
              | (Inr moved, w2) \<Rightarrow>
                  compose_pages env out (Suc i) rest
                    (combined_story_with_images @ [output_img_path]) w2))"

text \<open>
  Everything after the first loop: the directory, the images, the pages. This is where
  the world changes.
\<close>

definition build_storybook ::
  "env \<Rightarrow> string \<Rightarrow> string list \<Rightarrow> string list \<Rightarrow> world
   \<Rightarrow> (py_error + (string list \<times> string \<times> string)) \<times> world" where
  "build_storybook env title combined_sentences image_prompt_new w =
     (case makedirs env (output_dir env title) w of
        (Inl e, w1) \<Rightarrow> (Inl e, w1)
      | (Inr u, w1) \<Rightarrow>
          (case generate_images env title 0 image_prompt_new [] w1 of
             (Inl e, w2) \<Rightarrow> (Inl e, w2)
           | (Inr image_generated_paths, w2) \<Rightarrow>
               (case compose_pages env (output_dir env title) 0
                       (zip combined_sentences image_generated_paths) [] w2 of
                  (Inl e, w3) \<Rightarrow> (Inl e, w3)
                | (Inr combined_story_with_images, w3) \<Rightarrow>
                    (Inr (combined_story_with_images, output_dir env title, title), w3))))"

text \<open>
  \<open>process_text\<close>. Its handler logs the exception and raises it again, so an exception
  anywhere is the result of the call, with the world as it was left at that point.
\<close>

definition process_text ::
  "env \<Rightarrow> string \<Rightarrow> world \<Rightarrow> (py_error + (string list \<times> string \<times> string)) \<times> world" where
  "process_text env text w =
     (case extract_story_elements text of
        Inl e \<Rightarrow> (Inl e, w)
      | Inr (title_raw, story, moral, image_prompts) \<Rightarrow>
          (case sanitize_title title_raw of
             Inl e \<Rightarrow> (Inl e, w)
           | Inr title \<Rightarrow>
               (case split_story story of
                  Inl e \<Rightarrow> (Inl e, w)
                | Inr sentences \<Rightarrow>
                    (case combine_sentences env image_prompts sentences 0 [] [] of
                       Inl e \<Rightarrow> (Inl e, w)
                     | Inr (combined_sentences, image_prompt_new) \<Rightarrow>
                         build_storybook env title combined_sentences image_prompt_new w))))"

subsection \<open>Notions used to state the properties\<close>

text \<open>
  The pages of a narrative: \<open>page_count\<close> is the number of groups of three among its
  sentences (the ceiling of a third of their number), \<open>page_sentences\<close> the \<open>k\<close>-th group
  and \<open>page_text\<close> its sentences joined again.
\<close>

definition page_count :: "string list \<Rightarrow> nat" where
  "page_count sentences = (length sentences + 2) div 3"

definition page_sentences :: "string list \<Rightarrow> nat \<Rightarrow> string list" where
  "page_sentences sentences k = take 3 (drop (3 * k) sentences)"

definition page_text :: "string list \<Rightarrow> nat \<Rightarrow> string" where
  "page_text sentences k = py_join ''. '' (page_sentences sentences k)"

text \<open>
  Page \<open>k\<close> fails when its image is not generated, when its text cannot be drawn, or when
  the finished page cannot be moved into the output directory.
\<close>

definition page_fails :: "env \<Rightarrow> string \<Rightarrow> nat \<Rightarrow> string \<Rightarrow> string \<Rightarrow> bool" where
  "page_fails env title k prompt text =
     (case provider env (IMAGE_MODELS ! 0) prompt [] title k of
        Inl e \<Rightarrow> True
      | Inr image_path \<Rightarrow>
          (case textwrap_fill text 40 of
             Inl e \<Rightarrow> True
           | Inr wrapped_text \<Rightarrow>
               pil_error env image_path wrapped_text (page_name k) \<noteq> None
               \<or> move_error env (page_name k) (path_join (output_dir env title) (page_name k)) \<noteq> None))"

text \<open>An environment in which nothing fails, and a world in which nothing has happened
  yet; the examples run in them.\<close>

definition demo_env :: env where
  "demo_env =
     \<lparr>clock = 1700000000,
      py_str = (\<lambda>v. []),
      provider = (\<lambda>model prompt negative_prompt title i. Inr (''generated_'' @ str_nat i @ ''.png'')),
      makedirs_error = (\<lambda>path. None),
      pil_error = (\<lambda>image_path wrapped_text output_path. None),
      move_error = (\<lambda>src dst. None)\<rparr>"

definition empty_world :: world where
  "empty_world = \<lparr>dirs = [], files = [], requests = []\<rparr>"

text \<open>The same environment, except that the image provider fails on the second page.\<close>

definition failing_env :: env where
  "failing_env =
     demo_env\<lparr>provider := (\<lambda>model prompt negative_prompt title i.
        if i = 1 then Inl ProviderError
        else provider demo_env model prompt negative_prompt title i)\<rparr>"

section \<open>Title sanitization: properties\<close>

lemma is_special_space [simp]: "\<not> is_special (CHR '' '')"
  by (simp add: is_special_def special_chars_def)

lemma replace_special_chars_clean:
  "\<not> list_ex is_special s \<Longrightarrow> replace_special_chars s = s"
  by (induction s) auto

lemma replace_special_chars_run:
  "r \<noteq> [] \<Longrightarrow> list_all is_special r \<Longrightarrow> (t = [] \<or> \<not> is_special (hd t)) \<Longrightarrow>
   replace_special_chars (r @ t) = CHR '' '' # replace_special_chars t"
proof (cases r)
  case Nil
  then show "r \<noteq> [] \<Longrightarrow> ?thesis" by simp
next
  case (Cons c cs)
  assume a: "list_all is_special r" and t: "t = [] \<or> \<not> is_special (hd t)"
  from a Cons have c: "is_special c" and cs: "list_all is_special cs" by simp_all
  from cs have "dropWhile is_special (cs @ t) = dropWhile is_special t"
    by (simp add: dropWhile_append list_all_iff)
  also from t have "\<dots> = t" by (cases t) auto
  finally show ?thesis using c Cons by simp
qed

lemma replace_special_chars_append_clean:
  "\<not> list_ex is_special s \<Longrightarrow>
   replace_special_chars (s @ t) = s @ replace_special_chars t"
  by (induction s) auto

text \<open>
  C4 (as the code has it). Sanitization leaves every character outside the sixteen-character
  set unchanged, the apostrophe among them, and replaces each maximal run of characters of
  the set by one space: a title made of a clean part \<open>s\<close>, a non-empty run \<open>r\<close> of special
  characters and a rest \<open>t\<close> that does not start with a special character becomes \<open>s\<close>, one
  space, and the sanitized rest. The title \<open>Cat's Big Day! #1\<close> becomes
  \<open>Cat's Big Day\<close>, three spaces, \<open>1\<close>.
\<close>

theorem sanitize_title_runs:
  "set special_chars = set ''?;:%#@*&^$!<>,/'' \<union> {CHR 0x5C}
   \<and> \<not> is_special (CHR 0x27)
   \<and> (\<not> list_ex is_special s \<longrightarrow> replace_special_chars s = s)
   \<and> (\<not> list_ex is_special s \<and> r \<noteq> [] \<and> list_all is_special r
        \<and> (t = [] \<or> \<not> is_special (hd t))
      \<longrightarrow> replace_special_chars (s @ r @ t) = s @ '' '' @ replace_special_chars t)
   \<and> replace_special_chars ''Cat's Big Day! #1'' = ''Cat's Big Day   1''"
proof (intro conjI impI)
  show "set special_chars = set ''?;:%#@*&^$!<>,/'' \<union> {CHR 0x5C}"
    by (auto simp: special_chars_def)
  show "\<not> is_special (CHR 0x27)"
    by (simp add: is_special_def special_chars_def)
  show "replace_special_chars s = s" if "\<not> list_ex is_special s"
    using that by (rule replace_special_chars_clean)
  show "replace_special_chars (s @ r @ t) = s @ '' '' @ replace_special_chars t"
    if "\<not> list_ex is_special s \<and> r \<noteq> [] \<and> list_all is_special r
        \<and> (t = [] \<or> \<not> is_special (hd t))"
    using that by (simp add: replace_special_chars_append_clean replace_special_chars_run)
  show "replace_special_chars ''Cat's Big Day! #1'' = ''Cat's Big Day   1''"
    by (simp add: is_special_def special_chars_def)
qed

theorem sanitize_title_runs_witness:
  "\<not> list_ex is_special ''Day'' \<and> ''!#'' \<noteq> [] \<and> list_all is_special ''!#''
   \<and> (''1'' = [] \<or> \<not> is_special (hd ''1''))
   \<and> replace_special_chars (''Day'' @ ''!#'' @ ''1'') = ''Day 1''
   \<and> replace_special_chars ''Day'' = ''Day''"
  using sanitize_title_runs [of "''Day''" "''!#''" "''1''"]
  by (simp add: is_special_def special_chars_def)

text \<open>
  C4 (as the specification words it) fails twice on the code: the worked example does not
  give \<open>Cats Big Day  1\<close>, and two adjacent special characters give one space, not two.
\<close>

theorem sanitize_title_counterexample:
  "replace_special_chars ''Cat's Big Day! #1'' \<noteq> ''Cats Big Day  1''
   \<and> replace_special_chars ''a!#b'' = ''a b''
   \<and> replace_special_chars ''a!#b'' \<noteq> ''a  b''"
  by (simp add: is_special_def special_chars_def)

section \<open>The decoder's fuel\<close>

text \<open>
  A scan that returns has consumed at least one character, and a scan that starts with
  more than twice the length of its text as fuel does not run out of it.
\<close>

lemma length_skip_ws: "length (skip_ws s) \<le> length s"
  by (simp add: skip_ws_def length_dropWhile_le)

lemma skip_ws_Cons: "skip_ws s = c # r \<Longrightarrow> length r < length s"
  using length_skip_ws [of s] by simp

lemma scanstring_shorter: "scanstring acc s = Some (str, r) \<Longrightarrow> length r < length s"
proof (induction acc s rule: scanstring.induct)
  case (1 acc)
  then show ?case by simp
next
  case (2 acc c cs)
  show ?case
  proof (cases "c = CHR 0x22")
    case True
    with "2.prems" show ?thesis by simp
  next
    case nq: False
    show ?thesis
    proof (cases "c = CHR 0x5C")
      case False
      with nq "2.prems" have nc: "\<not> (of_char c :: nat) < 0x20"
        and rec: "scanstring (acc @ [c]) cs = Some (str, r)"
        by (auto split: if_splits)
      then have "length r < length cs"
        by (rule "2.IH"(5) [OF nq False])
      then show ?thesis by simp
    next
      case True
      with nq "2.prems" obtain esc rest where cs: "cs = esc # rest"
        by (cases cs) auto
      show ?thesis
      proof (cases "esc = CHR ''u''")
        case False
        with nq True cs "2.prems" obtain ch where ch: "backslash esc = Some ch"
          and rec: "scanstring (acc @ [ch]) rest = Some (str, r)"
          by (auto split: option.splits)
        from rec have "length r < length rest"
          by (rule "2.IH"(4) [OF nq True cs False ch])
        then show ?thesis by (simp add: cs)
      next
        case u: True
        with nq True cs "2.prems" obtain uni where uni: "decode_uXXXX rest = Some uni"
          by (auto split: option.splits)
        show ?thesis
        proof (cases "0xD800 \<le> uni \<and> uni \<le> 0xDBFF \<and> take 2 (drop 4 rest) = [CHR 0x5C, CHR ''u'']")
          case False
          with nq True cs u uni "2.prems" have
            "scanstring (acc @ py_chr uni) (drop 4 rest) = Some (str, r)"
            by auto
          then have "length r < length (drop 4 rest)"
            by (rule "2.IH"(3) [OF nq True cs u uni False])
          then show ?thesis by (simp add: cs)
        next
          case pair: True
          with nq True cs u uni "2.prems" obtain uni2 where
            uni2: "decode_uXXXX (drop 6 rest) = Some uni2"
            by (auto split: option.splits)
          show ?thesis
          proof (cases "0xDC00 \<le> uni2 \<and> uni2 \<le> 0xDFFF")
            case low: True
            with nq True cs u uni pair uni2 "2.prems" have
              "scanstring (acc @ py_chr (0x10000 + ((uni - 0xD800) * 1024 + (uni2 - 0xDC00))))
                 (drop 10 rest) = Some (str, r)"
              by auto
            then have "length r < length (drop 10 rest)"
              by (rule "2.IH"(1) [OF nq True cs u uni pair uni2 low])
            then show ?thesis by (simp add: cs)
          next
            case False
            with nq True cs u uni pair uni2 "2.prems" have
              "scanstring (acc @ py_chr uni) (drop 4 rest) = Some (str, r)"
              by auto
            then have "length r < length (drop 4 rest)"
              by (rule "2.IH"(2) [OF nq True cs u uni pair uni2 False])
            then show ?thesis by (simp add: cs)
          qed
        qed
      qed
    qed
  qed
qed

lemma match_fraction_length: "length (snd (match_fraction s)) \<le> length s"
  by (auto simp: match_fraction_def length_dropWhile_le le_SucI split: list.splits)

lemma match_exponent_length: "length (snd (match_exponent s)) \<le> length s"
proof -
  have "length (dropWhile is_digit (drop k r)) \<le> Suc (length r)" for k and r :: string
    using length_dropWhile_le [of is_digit "drop k r"] by simp
  then show ?thesis
    by (auto simp: match_exponent_def Let_def split: list.splits)
qed

lemma match_number_shorter:
  assumes "match_number s = Some (lexeme, r)"
  shows "length r < length s"
proof -
  define sg where "sg = (if s \<noteq> [] \<and> hd s = CHR ''-'' then ''-'' else [])"
  define s1 where "s1 = drop (length sg) s"
  from assms obtain d ds where s1: "s1 = d # ds"
    by (cases s1) (auto simp: match_number_def Let_def sg_def s1_def)
  define ip where "ip = (if d = CHR ''0'' then [d] else d # takeWhile is_digit ds)"
  define s2 where "s2 = drop (length ip) (d # ds)"
  from assms have r: "r = snd (match_exponent (snd (match_fraction s2)))"
    by (auto simp: match_number_def Let_def sg_def [symmetric] s1_def [symmetric] s1
          ip_def [symmetric] s2_def [symmetric] split: if_splits prod.splits)
  have "0 < length ip" by (simp add: ip_def)
  then have "length s2 < length s1" by (simp add: s2_def s1)
  moreover have "length s1 \<le> length s" by (simp add: s1_def)
  moreover have "length r \<le> length s2"
    unfolding r
    using match_exponent_length [of "snd (match_fraction s2)"] match_fraction_length [of s2]
    by simp
  ultimately show ?thesis by simp
qed

lemma scan_shorter:
  "(\<forall>s v r. scan_once n s = Inr (v, r) \<longrightarrow> length r < length s)
   \<and> (\<forall>pairs s v r. scan_object n pairs s = Inr (v, r) \<longrightarrow> length r < length s)
   \<and> (\<forall>vals s v r. scan_array n vals s = Inr (v, r) \<longrightarrow> length r < length s)"
proof (induction n)
  case 0
  show ?case by simp
next
  case (Suc n)
  then have once: "\<And>s v r. scan_once n s = Inr (v, r) \<Longrightarrow> length r < length s"
    and obj: "\<And>pairs s v r. scan_object n pairs s = Inr (v, r) \<Longrightarrow> length r < length s"
    and arr: "\<And>vals s v r. scan_array n vals s = Inr (v, r) \<Longrightarrow> length r < length s"
    by blast+
  have a: "length r < length s" if "scan_once (Suc n) s = Inr (v, r)" for s v r
  proof (cases s)
    case Nil
    with that show ?thesis by simp
  next
    case (Cons c cs)
    consider (str) "c = CHR 0x22" | (ob) "c \<noteq> CHR 0x22" "c = CHR ''{''"
      | (ar) "c \<noteq> CHR 0x22" "c \<noteq> CHR ''{''" "c = CHR ''[''"
      | (other) "c \<noteq> CHR 0x22" "c \<noteq> CHR ''{''" "c \<noteq> CHR ''[''"
      by blast
    then show ?thesis
    proof cases
      case str
      with that Cons show ?thesis
        by (auto split: option.splits dest: scanstring_shorter)
    next
      case ob
      with that Cons show ?thesis
        by (auto split: list.splits if_splits dest!: obj skip_ws_Cons)
    next
      case ar
      with that Cons obtain d ds where d: "skip_ws cs = d # ds"
        by (cases "skip_ws cs") auto
      from length_skip_ws [of cs] d have l: "length (d # ds) \<le> length cs" by simp
      show ?thesis
      proof (cases "d = CHR '']''")
        case True
        with that Cons ar d l show ?thesis by auto
      next
        case False
        with that Cons ar d have "scan_array n [] (d # ds) = Inr (v, r)" by simp
        from arr [OF this] l show ?thesis by (simp add: Cons)
      qed
    next
      case other
      with that Cons show ?thesis
        by (auto split: if_splits option.splits dest: match_number_shorter)
    qed
  qed
  have b: "length r < length s" if "scan_object (Suc n) pairs s = Inr (v, r)" for pairs s v r
  proof -
    from that obtain key s1 where k: "scanstring [] s = Some (key, s1)"
      by (auto split: option.splits)
    from that k obtain s2 where c: "skip_ws s1 = CHR '':'' # s2"
      by (auto split: list.splits if_splits)
    from that k c obtain val s3 where v: "scan_once n (skip_ws s2) = Inr (val, s3)"
      by (auto split: sum.splits)
    from that k c v obtain nextchar s4 where nx: "skip_ws s3 = nextchar # s4"
      by (auto split: list.splits)
    have l1: "length s1 < length s" using scanstring_shorter [OF k] .
    have l2: "length s2 < length s1" using skip_ws_Cons [OF c] .
    have l3: "length s3 < length s2" using once [OF v] length_skip_ws [of s2] by simp
    have l4: "length s4 < length s3" using skip_ws_Cons [OF nx] .
    show ?thesis
    proof (cases "nextchar = CHR ''}''")
      case True
      with that k c v nx have "r = s4" by simp
      with l1 l2 l3 l4 show ?thesis by simp
    next
      case False
      with that k c v nx obtain s5 where q: "skip_ws s4 = CHR 0x22 # s5"
        and rec: "scan_object n (pairs @ [(key, val)]) s5 = Inr (v, r)"
        by (auto split: list.splits if_splits)
      from obj [OF rec] skip_ws_Cons [OF q] l1 l2 l3 l4 show ?thesis by simp
    qed
  qed
  have c: "length r < length s" if "scan_array (Suc n) vals s = Inr (v, r)" for vals s v r
  proof -
    from that obtain val s1 where v: "scan_once n s = Inr (val, s1)"
      by (auto split: sum.splits)
    from that v obtain nextchar s2 where nx: "skip_ws s1 = nextchar # s2"
      by (auto split: list.splits)
    have l1: "length s1 < length s" using once [OF v] .
    have l2: "length s2 < length s1" using skip_ws_Cons [OF nx] .
    show ?thesis
    proof (cases "nextchar = CHR '']''")
      case True
      with that v nx have "r = s2" by simp
      with l1 l2 show ?thesis by simp
    next
      case False
      with that v nx have "scan_array n (vals @ [val]) (skip_ws s2) = Inr (v, r)"
        by (auto split: if_splits)
      from arr [OF this] length_skip_ws [of s2] l1 l2 show ?thesis by simp
    qed
  qed
  from a b c show ?case by blast
qed

lemma scan_once_shorter: "scan_once n s = Inr (v, r) \<Longrightarrow> length r < length s"
  using scan_shorter [of n] by blast

lemma scan_once_fuel_step:
  assumes obj: "\<And>pairs s. 2 * length s < n \<Longrightarrow> scan_object n pairs s \<noteq> Inl RecursionError"
    and arr: "\<And>vals s. 2 * length s + 1 < n \<Longrightarrow> scan_array n vals s \<noteq> Inl RecursionError"
    and f: "2 * length s < Suc n"
  shows "scan_once (Suc n) s \<noteq> Inl RecursionError"
proof (cases s)
  case Nil
  then show ?thesis by simp
next
  case (Cons c cs)
  consider (str) "c = CHR 0x22" | (ob) "c \<noteq> CHR 0x22" "c = CHR ''{''"
    | (ar) "c \<noteq> CHR 0x22" "c \<noteq> CHR ''{''" "c = CHR ''[''"
    | (other) "c \<noteq> CHR 0x22" "c \<noteq> CHR ''{''" "c \<noteq> CHR ''[''"
    by blast
  then show ?thesis
  proof cases
    case str
    with Cons show ?thesis by (auto split: option.splits)
  next
    case ob
    show ?thesis
    proof (cases "skip_ws cs")
      case Nil
      with Cons ob show ?thesis by simp
    next
      case (Cons d ds)
      from skip_ws_Cons [OF Cons] f \<open>s = c # cs\<close> have "2 * length ds < n" by simp
      from obj [OF this, of "[]"] Cons ob \<open>s = c # cs\<close> show ?thesis by simp
    qed
  next
    case ar
    show ?thesis
    proof (cases "skip_ws cs")
      case Nil
      with Cons ar show ?thesis by simp
    next
      case (Cons d ds)
      from length_skip_ws [of cs] Cons f \<open>s = c # cs\<close> have "2 * length (d # ds) + 1 < n"
        by simp
      from arr [OF this, of "[]"] Cons ar \<open>s = c # cs\<close> show ?thesis by simp
    qed
  next
    case other
    with Cons show ?thesis
      by (auto split: option.splits)
  qed
qed

lemma scan_object_fuel_step:
  assumes once: "\<And>s. 2 * length s < n \<Longrightarrow> scan_once n s \<noteq> Inl RecursionError"
    and obj: "\<And>pairs s. 2 * length s < n \<Longrightarrow> scan_object n pairs s \<noteq> Inl RecursionError"
    and f: "2 * length s < Suc n"
  shows "scan_object (Suc n) pairs s \<noteq> Inl RecursionError"
proof (cases "scanstring [] s")
  case None
  then show ?thesis by simp
next
  case (Some ks)
  obtain key s1 where ks: "ks = (key, s1)" by (cases ks)
  from Some ks have k: "scanstring [] s = Some (key, s1)" by simp
  have l1: "length s1 < length s" using scanstring_shorter [OF k] .
  show ?thesis
  proof (cases "skip_ws s1")
    case Nil
    with k show ?thesis by simp
  next
    case (Cons colon s2)
    have l2: "length s2 < length s1" using skip_ws_Cons [OF Cons] .
    show ?thesis
    proof (cases "colon = CHR '':''")
      case False
      with k Cons show ?thesis by simp
    next
      case True
      from l1 l2 f length_skip_ws [of s2] have "2 * length (skip_ws s2) < n" by simp
      note o = once [OF this]
      show ?thesis
      proof (cases "scan_once n (skip_ws s2)")
        case (Inl e)
        with o k Cons True show ?thesis by simp
      next
        case (Inr vr)
        obtain val s3 where vr: "vr = (val, s3)" by (cases vr)
        from Inr vr have v: "scan_once n (skip_ws s2) = Inr (val, s3)" by simp
        have l3: "length s3 < length s2"
          using scan_once_shorter [OF v] length_skip_ws [of s2] by simp
        show ?thesis
        proof (cases "skip_ws s3")
          case Nil
          with k Cons True v show ?thesis by simp
        next
          case nx: (Cons nextchar s4)
          have l4: "length s4 < length s3" using skip_ws_Cons [OF nx] .
          show ?thesis
          proof (cases "nextchar = CHR ''}'' \<or> nextchar \<noteq> CHR '',''")
            case True
            with k Cons \<open>colon = CHR '':''\<close> v nx show ?thesis by auto
          next
            case False
            show ?thesis
            proof (cases "skip_ws s4")
              case Nil
              with k Cons \<open>colon = CHR '':''\<close> v nx False show ?thesis by simp
            next
              case q: (Cons q s5)
              from skip_ws_Cons [OF q] l1 l2 l3 l4 f have "2 * length s5 < n" by simp
              from obj [OF this, of "pairs @ [(key, val)]"]
                k Cons \<open>colon = CHR '':''\<close> v nx False q
              show ?thesis by simp
            qed
          qed
        qed
      qed
    qed
  qed
qed

lemma scan_array_fuel_step:
  assumes once: "\<And>s. 2 * length s < n \<Longrightarrow> scan_once n s \<noteq> Inl RecursionError"
    and arr: "\<And>vals s. 2 * length s + 1 < n \<Longrightarrow> scan_array n vals s \<noteq> Inl RecursionError"
    and f: "2 * length s + 1 < Suc n"
  shows "scan_array (Suc n) vals s \<noteq> Inl RecursionError"
proof -
  from f have "2 * length s < n" by simp
  note o = once [OF this]
  show ?thesis
  proof (cases "scan_once n s")
    case (Inl e)
    with o show ?thesis by simp
  next
    case (Inr vr)
    obtain val s1 where vr: "vr = (val, s1)" by (cases vr)
    from Inr vr have v: "scan_once n s = Inr (val, s1)" by simp
    have l1: "length s1 < length s" using scan_once_shorter [OF v] .
    show ?thesis
    proof (cases "skip_ws s1")
      case Nil
      with v show ?thesis by simp
    next
      case (Cons nextchar s2)
      have l2: "length s2 < length s1" using skip_ws_Cons [OF Cons] .
      show ?thesis
      proof (cases "nextchar = CHR '']'' \<or> nextchar \<noteq> CHR '',''")
        case True
        with v Cons show ?thesis by auto
      next
        case False
        from l1 l2 f length_skip_ws [of s2] have "2 * length (skip_ws s2) + 1 < n" by simp
        from arr [OF this, of "vals @ [val]"] v Cons False show ?thesis by simp
      qed
    qed
  qed
qed

lemma scan_fuel:
  "(\<forall>s. 2 * length s < n \<longrightarrow> scan_once n s \<noteq> Inl RecursionError)
   \<and> (\<forall>pairs s. 2 * length s < n \<longrightarrow> scan_object n pairs s \<noteq> Inl RecursionError)
   \<and> (\<forall>vals s. 2 * length s + 1 < n \<longrightarrow> scan_array n vals s \<noteq> Inl RecursionError)"
proof (induction n)
  case 0
  show ?case by simp
next
  case (Suc n)
  note once = Suc [THEN conjunct1, rule_format]
  note obj = Suc [THEN conjunct2, THEN conjunct1, rule_format]
  note arr = Suc [THEN conjunct2, THEN conjunct2, rule_format]
  show ?case
  proof (intro conjI allI impI)
    fix s :: string assume f: "2 * length s < Suc n"
    show "scan_once (Suc n) s \<noteq> Inl RecursionError"
      by (rule scan_once_fuel_step [OF _ _ f]) (erule obj, erule arr)
  next
    fix pairs and s :: string assume f: "2 * length s < Suc n"
    show "scan_object (Suc n) pairs s \<noteq> Inl RecursionError"
      by (rule scan_object_fuel_step [OF _ _ f]) (erule once, erule obj)
  next
    fix vals and s :: string assume f: "2 * length s + 1 < Suc n"
    show "scan_array (Suc n) vals s \<noteq> Inl RecursionError"
      by (rule scan_array_fuel_step [OF _ _ f]) (erule once, erule arr)
  qed
qed

lemma json_loads_fuel: "json_loads s \<noteq> Inl RecursionError"
proof -
  have "2 * length (skip_ws s) < Suc (2 * length s)"
    using length_skip_ws [of s] by simp
  then have "scan_once (Suc (2 * length s)) (skip_ws s) \<noteq> Inl RecursionError"
    by (rule scan_fuel [THEN conjunct1, rule_format])
  then show ?thesis
    by (cases "scan_once (Suc (2 * length s)) (skip_ws s)")
       (simp_all add: json_loads_def split: prod.splits)
qed

section \<open>Finding the payload\<close>

lemma find_from_notin:
  "c \<notin> set xs \<Longrightarrow> find_from c (xs @ ys) i = find_from c ys (i + length xs)"
  by (induction xs arbitrary: i) auto

lemma py_find_none: "c \<notin> set s \<Longrightarrow> py_find s c = - 1"
  using find_from_notin [of c s "[]" 0] by (simp add: py_find_def)

lemma py_find_first: "c \<notin> set pre \<Longrightarrow> py_find (pre @ c # rest) c = int (length pre)"
  using find_from_notin [of c pre "c # rest" 0] by (simp add: py_find_def)

lemma py_rfind_none: "c \<notin> set s \<Longrightarrow> py_rfind s c = - 1"
  using find_from_notin [of c "rev s" "[]" 0] by (simp add: py_rfind_def)

lemma py_rfind_last: "c \<notin> set suf \<Longrightarrow> py_rfind (xs @ c # suf) c = int (length xs)"
  using find_from_notin [of c "rev suf" "c # rev xs" 0] by (simp add: py_rfind_def)

lemma py_slice_nat: "py_slice xs (int a) (int b) = take (b - a) (drop a xs)"
  by (auto simp: py_slice_def slice_bound_def Let_def min_def)

lemma py_slice_middle:
  "py_slice (pre @ mid @ suf) (int (length pre)) (int (length pre + length mid)) = mid"
  by (simp only: py_slice_nat) simp

lemma py_rfind_range: "py_rfind s c = - 1 \<or> (0 \<le> py_rfind s c \<and> py_rfind s c < int (length s))"
  using find_from_bounds [of c "rev s" 0] by (auto simp: py_rfind_def Let_def)

lemma find_from_zero: "find_from c s 0 = 0 \<Longrightarrow> s \<noteq> [] \<and> hd s = c"
proof (cases s)
  case Nil
  then show "find_from c s 0 = 0 \<Longrightarrow> ?thesis" by simp
next
  case (Cons x xs)
  assume z: "find_from c s 0 = 0"
  show ?thesis
  proof (cases "x = c")
    case True
    then show ?thesis by (simp add: Cons)
  next
    case False
    with z Cons have "find_from c xs (Suc 0) = 0" by simp
    with find_from_bounds [of c xs "Suc 0"] show ?thesis by simp
  qed
qed

lemma py_rfind_at_end:
  assumes "py_rfind s c + 1 = int (length s)" and "s \<noteq> []"
  shows "last s = c"
proof -
  from assms have "find_from c (rev s) 0 = 0"
    by (simp add: py_rfind_def Let_def split: if_splits)
  from find_from_zero [OF this] show ?thesis by (simp add: hd_rev)
qed

lemma py_slice_from_last:
  assumes "s \<noteq> []" and "0 \<le> e"
  shows "py_slice s (- 1) e = (if int (length s) \<le> e then [last s] else [])"
proof -
  from assms(1) have "drop (length s - Suc 0) s = [last s]"
    by (metis One_nat_def append_butlast_last_id append_eq_conv_conj length_butlast)
  moreover from assms(1) have "length s - (length s - Suc 0) = Suc 0"
    by (cases s) auto
  ultimately show ?thesis using assms
    by (auto simp: py_slice_def slice_bound_def Let_def max_def min_def nat_diff_distrib')
qed

lemma json_loads_empty: "json_loads [] = Inl JSONDecodeError"
  by (simp add: json_loads_def skip_ws_def)

lemma json_loads_close: "json_loads ''}'' = Inl JSONDecodeError"
  by code_simp

lemma slice_payload:
  assumes "CHR ''{'' \<notin> set pre" "CHR ''}'' \<notin> set suf"
    and "payload \<noteq> []" "hd payload = CHR ''{''" "last payload = CHR ''}''"
  shows "py_slice (pre @ payload @ suf) (py_find (pre @ payload @ suf) (CHR ''{''))
           (py_rfind (pre @ payload @ suf) (CHR ''}'') + 1) = payload"
proof -
  from assms(3,4) obtain rest where p1: "payload = CHR ''{'' # rest"
    by (cases payload) auto
  from assms(3,5) obtain front where p2: "payload = front @ [CHR ''}'']"
    by (metis append_butlast_last_id)
  have a: "py_find (pre @ payload @ suf) (CHR ''{'') = int (length pre)"
    using py_find_first [OF assms(1), of "rest @ suf"] by (simp add: p1)
  have "py_rfind (pre @ payload @ suf) (CHR ''}'') = int (length (pre @ front))"
    using py_rfind_last [OF assms(2), of "pre @ front"] by (simp add: p2)
  then have b: "py_rfind (pre @ payload @ suf) (CHR ''}'') + 1 = int (length pre + length payload)"
    by (simp add: p2)
  show ?thesis
    by (simp only: a b py_slice_middle)
qed

lemma slice_no_braces:
  assumes "CHR ''{'' \<notin> set text \<or> CHR ''}'' \<notin> set text"
  shows "py_slice text (py_find text (CHR ''{'')) (py_rfind text (CHR ''}'') + 1) \<in> {[], ''}''}"
proof (cases "CHR ''}'' \<in> set text")
  case False
  then have "py_rfind text (CHR ''}'') + 1 = 0" by (simp add: py_rfind_none)
  then show ?thesis by (simp add: py_slice_def slice_bound_def Let_def)
next
  case True
  with assms have no: "CHR ''{'' \<notin> set text" by blast
  then have f: "py_find text (CHR ''{'') = - 1" by (simp add: py_find_none)
  let ?e = "py_rfind text (CHR ''}'') + 1"
  from True have ne: "text \<noteq> []" by auto
  have "py_rfind text (CHR ''}'') = - 1
      \<or> (0 \<le> py_rfind text (CHR ''}'') \<and> py_rfind text (CHR ''}'') < int (length text))"
    by (rule py_rfind_range)
  then have e0: "0 \<le> ?e" and e1: "?e \<le> int (length text)"
    by auto
  show ?thesis
  proof (cases "?e = int (length text)")
    case True
    from py_rfind_at_end [OF this ne] show ?thesis
      using py_slice_from_last [OF ne e0] True f by simp
  next
    case False
    with e1 have "\<not> int (length text) \<le> ?e" by simp
    then show ?thesis
      using py_slice_from_last [OF ne e0] f by simp
  qed
qed


text \<open>
  C1 (as the code has it). A payload that starts with \<open>{\<close>, ends with \<open>}\<close> and decodes to
  an object with the keys \<open>title\<close>, \<open>story\<close>, \<open>moral\<close> and \<open>imagePrompts\<close> is extracted with
  exactly these four values from any text that puts a prefix without \<open>{\<close> in front of it
  and a suffix without \<open>}\<close> behind it: the slice from the first \<open>{\<close> to the last \<open>}\<close> is
  then the payload itself.
\<close>

theorem extract_story_elements_clean_noise:
  assumes "CHR ''{'' \<notin> set pre" and "CHR ''}'' \<notin> set suf"
    and "payload \<noteq> []" and "hd payload = CHR ''{''" and "last payload = CHR ''}''"
    and "json_loads payload = Inr (JObject pairs)"
    and "dict_get pairs ''title'' = Some title"
    and "dict_get pairs ''story'' = Some story"
    and "dict_get pairs ''moral'' = Some moral"
    and "dict_get pairs ''imagePrompts'' = Some image_prompts"
  shows "extract_story_elements (pre @ payload @ suf) = Inr (title, story, moral, image_prompts)"
  using assms(6-10)
  by (simp add: extract_story_elements_def Let_def slice_payload [OF assms(1-5)])

theorem extract_story_elements_clean_noise_witness:
  \<open>CHR ''{'' \<notin> set ''Sure! '' \<and> CHR ''}'' \<notin> set '' Enjoy.''
   \<and> json_loads ''{"title": "T", "story": "A. B", "moral": "M", "imagePrompts": ["p"]}''
       = Inr (JObject [(''title'', JString ''T''), (''story'', JString ''A. B''),
                       (''moral'', JString ''M''), (''imagePrompts'', JArray [JString ''p''])])
   \<and> extract_story_elements
        (''Sure! '' @ ''{"title": "T", "story": "A. B", "moral": "M", "imagePrompts": ["p"]}''
         @ '' Enjoy.'')
       = Inr (JString ''T'', JString ''A. B'', JString ''M'', JArray [JString ''p''])\<close>
proof -
  have l: \<open>json_loads ''{"title": "T", "story": "A. B", "moral": "M", "imagePrompts": ["p"]}''
       = Inr (JObject [(''title'', JString ''T''), (''story'', JString ''A. B''),
                       (''moral'', JString ''M''), (''imagePrompts'', JArray [JString ''p''])])\<close>
    by code_simp
  show ?thesis
    using l extract_story_elements_clean_noise [OF _ _ _ _ _ l, of "''Sure! ''" "'' Enjoy.''"
        "JString ''T''" "JString ''A. B''" "JString ''M''" "JArray [JString ''p'']"]
    by (simp add: dict_get_def)
qed

text \<open>
  C1 (as the specification words it, for any prefix and any suffix) fails on the code: a
  \<open>{\<close> in the prefix or a \<open>}\<close> in the suffix moves the slice, and the decoder rejects it.
\<close>

theorem extract_story_elements_noise_counterexample:
  \<open>extract_story_elements ''{"title": "T", "story": "A. B", "moral": "M", "imagePrompts": ["p"]}''
     = Inr (JString ''T'', JString ''A. B'', JString ''M'', JArray [JString ''p''])
   \<and> extract_story_elements
        (''Use {braces}: '' @ ''{"title": "T", "story": "A. B", "moral": "M", "imagePrompts": ["p"]}'' @ '''')
     = Inl JSONDecodeError
   \<and> extract_story_elements
        ('''' @ ''{"title": "T", "story": "A. B", "moral": "M", "imagePrompts": ["p"]}'' @ '' (the end :})'')
     = Inl JSONDecodeError\<close>
  by code_simp

text \<open>
  C9. A text without \<open>{\<close> or without \<open>}\<close> makes \<open>extract_story_elements\<close> raise: the slice
  is empty or the single character \<open>}\<close>, and \<open>json.loads\<close> rejects both with
  \<open>JSONDecodeError\<close>, the error the code has for a text without a payload. \<open>process_text\<close>
  raises the same error and leaves the world as it was: no request has gone to the image
  provider.
\<close>

theorem no_payload_fails_before_generation:
  assumes "CHR ''{'' \<notin> set text \<or> CHR ''}'' \<notin> set text"
  shows "extract_story_elements text = Inl JSONDecodeError
     \<and> process_text env text w = (Inl JSONDecodeError, w)
     \<and> requests (snd (process_text env text w)) = requests w"
proof -
  from slice_no_braces [OF assms]
  have "json_loads (py_slice text (py_find text (CHR ''{'')) (py_rfind text (CHR ''}'') + 1))
          = Inl JSONDecodeError"
    using json_loads_empty json_loads_close by auto
  then have "extract_story_elements text = Inl JSONDecodeError"
    by (simp add: extract_story_elements_def Let_def)
  then show ?thesis by (simp add: process_text_def)
qed

theorem no_payload_fails_before_generation_witness:
  "CHR ''{'' \<notin> set ''Once upon a time}''
   \<and> extract_story_elements ''Once upon a time}'' = Inl JSONDecodeError
   \<and> process_text demo_env ''Once upon a time}'' empty_world = (Inl JSONDecodeError, empty_world)
   \<and> requests (snd (process_text demo_env ''Once upon a time}'' empty_world)) = []"
  using no_payload_fails_before_generation [of "''Once upon a time}''" demo_env empty_world]
  by (simp add: empty_world_def)

section \<open>Segmentation\<close>

lemma py_slice_three: "py_slice xs (int i) (int i + 3) = take 3 (drop i xs)"
  using py_slice_nat [of xs i "i + 3"] by simp

lemma py_slice_page: "py_slice xs (3 * int m) (3 * int m + 3) = take 3 (drop (3 * m) xs)"
  using py_slice_three [of xs "3 * m"] by simp

lemma page_count_less: "3 * m < length sentences \<longleftrightarrow> m < page_count sentences"
  by (auto simp: page_count_def)

lemma combine_sentences_stop:
  "\<not> i < length sentences \<Longrightarrow>
   combine_sentences env image_prompts sentences i cs nps = Inr (cs, nps)"
  by (subst combine_sentences.simps) simp

lemma combine_sentences_raise:
  "i < length sentences \<Longrightarrow> select_prompt image_prompts (i div 3) = Inl e \<Longrightarrow>
   combine_sentences env image_prompts sentences i cs nps = Inl e"
  by (subst combine_sentences.simps) simp

lemma combine_sentences_step:
  "i < length sentences \<Longrightarrow> select_prompt image_prompts (i div 3) = Inr p \<Longrightarrow>
   combine_sentences env image_prompts sentences i cs nps =
   combine_sentences env image_prompts sentences (i + 3)
     (cs @ [py_join ''. '' (take 3 (drop i sentences))])
     (nps @ [new_prompt env (py_join ''. '' (take 3 (drop i sentences))) p])"
  by (subst combine_sentences.simps) (simp add: Let_def py_slice_three)

lemma combine_sentences_page:
  assumes "m < page_count sentences" and "select_prompt image_prompts m = Inr p"
  shows "combine_sentences env image_prompts sentences (3 * m) cs nps =
         combine_sentences env image_prompts sentences (3 * Suc m)
           (cs @ [page_text sentences m]) (nps @ [new_prompt env (page_text sentences m) p])"
proof -
  from assms(1) have i: "3 * m < length sentences" by (simp add: page_count_less)
  have d: "(3 * m) div 3 = m" by simp
  have s: "3 * m + 3 = 3 * Suc m" by simp
  from combine_sentences_step [OF i, of image_prompts p env cs nps] assms(2)
  show ?thesis by (simp only: d s page_text_def page_sentences_def)
qed

lemma combine_sentences_success:
  assumes "\<forall>k. m \<le> k \<and> k < page_count sentences \<longrightarrow> select_prompt image_prompts k = Inr (f k)"
  shows "combine_sentences env image_prompts sentences (3 * m) cs nps =
           Inr (cs @ map (page_text sentences) [m..<page_count sentences],
                nps @ map (\<lambda>k. new_prompt env (page_text sentences k) (f k))
                        [m..<page_count sentences])"
  using assms
proof (induction "page_count sentences - m" arbitrary: m cs nps)
  case 0
  then have "\<not> 3 * m < length sentences" by (simp add: page_count_less)
  moreover from 0 have "[m..<page_count sentences] = []" by simp
  ultimately show ?case by (simp add: combine_sentences.simps)
next
  case (Suc n)
  then have lt: "m < page_count sentences" by simp
  then have i: "3 * m < length sentences" by (simp add: page_count_less)
  from Suc.prems lt have sel: "select_prompt image_prompts m = Inr (f m)" by simp
  have n: "n = page_count sentences - Suc m" using Suc.hyps(2) by simp
  have rest: "\<forall>k. Suc m \<le> k \<and> k < page_count sentences \<longrightarrow> select_prompt image_prompts k = Inr (f k)"
    using Suc.prems by simp
  have step: "3 * m + 3 = 3 * Suc m" by simp
  have upt: "[m..<page_count sentences] = m # [Suc m..<page_count sentences]"
    using lt by (simp add: upt_conv_Cons)
  show ?case
    by (simp only: combine_sentences_page [OF lt sel] Suc.hyps(1) [OF n rest] upt)
       simp
qed

lemma combine_sentences_inverse:
  "combine_sentences env image_prompts sentences (3 * m) cs nps = Inr r \<Longrightarrow>
   m \<le> k \<Longrightarrow> k < page_count sentences \<Longrightarrow> \<exists>p. select_prompt image_prompts k = Inr p"
proof (induction "page_count sentences - m" arbitrary: m cs nps)
  case 0
  then show ?case by simp
next
  case (Suc n)
  then have lt: "m < page_count sentences" by simp
  then have i: "3 * m < length sentences" by (simp add: page_count_less)
  have n: "n = page_count sentences - Suc m" using Suc.hyps(2) by simp
  have step: "3 * m + 3 = 3 * Suc m" by simp
  have d: "(3 * m) div 3 = m" by simp
  show ?case
  proof (cases "select_prompt image_prompts m")
    case (Inl e)
    with Suc.prems(1) combine_sentences_raise [OF i, of image_prompts e env cs nps] d
    show ?thesis by simp
  next
    case (Inr p)
    show ?thesis
    proof (cases "k = m")
      case True
      with Inr show ?thesis by simp
    next
      case False
      with Suc.prems(2) have k: "Suc m \<le> k" by simp
      from Suc.prems(1)
      have "combine_sentences env image_prompts sentences (3 * Suc m)
              (cs @ [page_text sentences m]) (nps @ [new_prompt env (page_text sentences m) p])
            = Inr r"
        by (simp only: combine_sentences_page [OF lt Inr])
      from Suc.hyps(1) [OF n this k Suc.prems(3)] show ?thesis .
    qed
  qed
qed

lemma select_prompt_list:
  assumes "ps \<noteq> []"
  shows "select_prompt (JArray ps) k = Inr (if k < length ps then ps ! k else last ps)"
proof -
  from assms have "1 \<le> length ps" by (cases ps) simp_all
  then have "nat (int (length ps) + - 1) = length ps - 1" by simp
  with assms \<open>1 \<le> length ps\<close> show ?thesis
    by (simp add: select_prompt_def seq_index_def last_conv_nth)
qed

lemma select_prompt_empty: "select_prompt (JArray []) k = Inl IndexError"
  by (simp add: select_prompt_def seq_index_def)

lemma split_from_nonempty: "split_from sep cur s \<noteq> []"
  by (induction sep cur s rule: split_from.induct) (subst split_from.simps, simp)

lemma page_sentences_concat:
  "concat (map (page_sentences sentences) [0..<page_count sentences]) = sentences"
proof (induction sentences rule: length_induct)
  case (1 xs)
  show ?case
  proof (cases "xs = []")
    case True
    then show ?thesis by (simp add: page_count_def)
  next
    case False
    then have "0 < length xs" by simp
    then have "(length xs + 2) div 3 = Suc ((length xs - 3 + 2) div 3)" by arith
    then have pc: "page_count xs = Suc (page_count (drop 3 xs))"
      by (simp add: page_count_def)
    have shift: "map (page_sentences xs) [Suc 0..<Suc (page_count (drop 3 xs))]
                 = map (page_sentences (drop 3 xs)) [0..<page_count (drop 3 xs)]"
      unfolding map_Suc_upt [symmetric] map_map
      by (rule map_cong) (simp_all add: page_sentences_def ac_simps)
    from False have "length (drop 3 xs) < length xs" by simp
    with 1 have ih: "concat (map (page_sentences (drop 3 xs)) [0..<page_count (drop 3 xs)]) = drop 3 xs"
      by blast
    have "[0..<page_count xs] = 0 # [Suc 0..<Suc (page_count (drop 3 xs))]"
      by (simp add: pc upt_conv_Cons del: upt_Suc)
    then show ?thesis
      by (simp add: shift ih del: upt_Suc) (simp add: page_sentences_def)
  qed
qed

text \<open>
  C2. With at least one image prompt, the first loop of \<open>process_text\<close> ends normally for
  every narrative. The narrative has \<open>S \<ge> 1\<close> sentences, and the loop makes
  \<open>(S + 2) div 3\<close> page texts, the ceiling of \<open>S / 3\<close>; page \<open>k\<close> is the join of the
  sentences \<open>3k\<close>, \<open>3k + 1\<close>, \<open>3k + 2\<close> that exist (between one and three of them), and
  the groups of the pages in order are the sentences in their original order.
\<close>

theorem segmentation_pages:
  assumes "ps \<noteq> []" and "split_story (JString story) = Inr sentences"
  shows "\<exists>combined prompts.
           combine_sentences env (JArray ps) sentences 0 [] [] = Inr (combined, prompts)
         \<and> 1 \<le> length sentences
         \<and> length combined = (length sentences + 2) div 3
         \<and> length sentences \<le> 3 * length combined
         \<and> 3 * length combined < length sentences + 3
         \<and> (\<forall>k<length combined.
               combined ! k = py_join ''. '' (take 3 (drop (3 * k) sentences))
               \<and> 1 \<le> length (take 3 (drop (3 * k) sentences))
               \<and> length (take 3 (drop (3 * k) sentences)) \<le> 3)
         \<and> concat (map (\<lambda>k. take 3 (drop (3 * k) sentences)) [0..<length combined]) = sentences"
proof -
  let ?n = "page_count sentences"
  let ?f = "\<lambda>k. if k < length ps then ps ! k else last ps"
  have sel: "\<forall>k. 0 \<le> k \<and> k < ?n \<longrightarrow> select_prompt (JArray ps) k = Inr (?f k)"
    using assms(1) by (simp add: select_prompt_list)
  have run: "combine_sentences env (JArray ps) sentences 0 [] [] =
      Inr (map (page_text sentences) [0..<?n],
           map (\<lambda>k. new_prompt env (page_text sentences k) (?f k)) [0..<?n])"
    using combine_sentences_success [OF sel, of env "[]" "[]"] by simp
  from assms(2) have "sentences = split_from ''. '' [] story"
    by (simp add: split_story_def py_split_def)
  then have "sentences \<noteq> []"
    using split_from_nonempty [of "''. ''" "[]" story] by simp
  then have ne: "1 \<le> length sentences"
    by (cases sentences) simp_all
  have each: "\<forall>k<?n. 1 \<le> length (take 3 (drop (3 * k) sentences))"
    by (auto simp: page_count_less [symmetric])
  have cat: "concat (map (\<lambda>k. take 3 (drop (3 * k) sentences)) [0..<?n]) = sentences"
    using page_sentences_concat [of sentences] by (simp add: page_sentences_def [abs_def])
  have "length sentences \<le> 3 * ?n" and "3 * ?n < length sentences + 3"
    by (simp_all add: page_count_def)
  with run ne each cat show ?thesis
    by (simp add: page_text_def page_sentences_def page_count_def)
qed

theorem segmentation_pages_witness:
  "[JString ''a sleepy cat'', JString ''a cat eating''] \<noteq> []
   \<and> split_story
        (JString ''A cat woke up. It stretched. It yawned. Then it ate breakfast. It played outside.'')
       = Inr [''A cat woke up'', ''It stretched'', ''It yawned'', ''Then it ate breakfast'',
              ''It played outside.'']
   \<and> (\<exists>prompts.
         combine_sentences demo_env (JArray [JString ''a sleepy cat'', JString ''a cat eating''])
           [''A cat woke up'', ''It stretched'', ''It yawned'', ''Then it ate breakfast'',
            ''It played outside.''] 0 [] []
         = Inr ([''A cat woke up. It stretched. It yawned'',
                 ''Then it ate breakfast. It played outside.''], prompts))"
proof -
  have s: "split_story
        (JString ''A cat woke up. It stretched. It yawned. Then it ate breakfast. It played outside.'')
       = Inr [''A cat woke up'', ''It stretched'', ''It yawned'', ''Then it ate breakfast'',
              ''It played outside.'']"
    by code_simp
  have n: "[JString ''a sleepy cat'', JString ''a cat eating''] \<noteq> []" by simp
  from segmentation_pages [OF n s, of demo_env]
  obtain combined prompts where
    r: "combine_sentences demo_env (JArray [JString ''a sleepy cat'', JString ''a cat eating''])
           [''A cat woke up'', ''It stretched'', ''It yawned'', ''Then it ate breakfast'',
            ''It played outside.''] 0 [] [] = Inr (combined, prompts)"
    and l: "length combined = 2"
    and c: "\<forall>k<length combined. combined ! k = py_join ''. '' (take 3 (drop (3 * k)
          [''A cat woke up'', ''It stretched'', ''It yawned'', ''Then it ate breakfast'',
            ''It played outside.'']))"
    by auto
  from l c have "combined ! 0 = ''A cat woke up. It stretched. It yawned''"
    and "combined ! 1 = ''Then it ate breakfast. It played outside.''"
    by simp_all
  with l have "combined = [''A cat woke up. It stretched. It yawned'',
                 ''Then it ate breakfast. It played outside.'']"
    by (cases combined; cases "tl combined") auto
  with r s n show ?thesis by blast
qed

lemma combine_sentences_list:
  assumes "ps \<noteq> []"
  shows "combine_sentences env (JArray ps) sentences 0 [] [] =
      Inr (map (page_text sentences) [0..<page_count sentences],
           map (\<lambda>k. new_prompt env (page_text sentences k)
                  (if k < length ps then ps ! k else last ps)) [0..<page_count sentences])"
proof -
  have "\<forall>k. 0 \<le> k \<and> k < page_count sentences \<longrightarrow>
          select_prompt (JArray ps) k = Inr (if k < length ps then ps ! k else last ps)"
    using assms by (simp add: select_prompt_list)
  from combine_sentences_success [OF this, of env "[]" "[]"] show ?thesis by simp
qed

lemma combine_sentences_empty_story:
  assumes "ps \<noteq> []"
  shows "combine_sentences env (JArray ps) [[]] 0 [] [] = Inr ([[]], [new_prompt env [] (hd ps)])"
proof -
  have sel: "select_prompt (JArray ps) (0 div 3) = Inr (hd ps)"
    using assms by (simp add: select_prompt_list hd_conv_nth)
  have i: "0 < length [[] :: string]" by simp
  show ?thesis
    using combine_sentences_step [OF i sel, of env "[]" "[]"]
    by (simp add: combine_sentences_stop)
qed

text \<open>
  C3. With at least one image prompt and fewer prompts than pages, the first loop ends
  normally; page \<open>k\<close> below the number of prompts is paired with prompt \<open>k\<close>, and every
  page from that number on is paired with the last prompt of the list, never with one
  from its start.
\<close>

theorem prompt_shortfall_uses_last:
  assumes "ps \<noteq> []" and "split_story (JString story) = Inr sentences"
    and "length ps < page_count sentences"
  shows "\<exists>combined prompts.
           combine_sentences env (JArray ps) sentences 0 [] [] = Inr (combined, prompts)
         \<and> length combined = page_count sentences
         \<and> length prompts = page_count sentences
         \<and> (\<forall>k<page_count sentences.
              (k < length ps \<longrightarrow>
                 select_prompt (JArray ps) k = Inr (ps ! k)
                 \<and> prompts ! k = new_prompt env (combined ! k) (ps ! k))
              \<and> (length ps \<le> k \<longrightarrow>
                 select_prompt (JArray ps) k = Inr (last ps)
                 \<and> prompts ! k = new_prompt env (combined ! k) (last ps)))"
proof -
  let ?n = "page_count sentences"
  let ?f = "\<lambda>k. if k < length ps then ps ! k else last ps"
  have sel: "\<forall>k. 0 \<le> k \<and> k < ?n \<longrightarrow> select_prompt (JArray ps) k = Inr (?f k)"
    using assms(1) by (simp add: select_prompt_list)
  have run: "combine_sentences env (JArray ps) sentences 0 [] [] =
      Inr (map (page_text sentences) [0..<?n],
           map (\<lambda>k. new_prompt env (page_text sentences k) (?f k)) [0..<?n])"
    using combine_sentences_success [OF sel, of env "[]" "[]"] by simp
  show ?thesis
    using assms(1) by (simp add: run select_prompt_list)
qed

theorem prompt_shortfall_uses_last_witness:
  "[JString ''a sleepy cat''] \<noteq> []
   \<and> split_story
        (JString ''A cat woke up. It stretched. It yawned. Then it ate breakfast. It played outside.'')
       = Inr [''A cat woke up'', ''It stretched'', ''It yawned'', ''Then it ate breakfast'',
              ''It played outside.'']
   \<and> length [JString ''a sleepy cat'']
       < page_count [''A cat woke up'', ''It stretched'', ''It yawned'', ''Then it ate breakfast'',
              ''It played outside.'']
   \<and> select_prompt (JArray [JString ''a sleepy cat'']) 1 = Inr (JString ''a sleepy cat'')
   \<and> (\<exists>combined prompts.
         combine_sentences demo_env (JArray [JString ''a sleepy cat''])
           [''A cat woke up'', ''It stretched'', ''It yawned'', ''Then it ate breakfast'',
            ''It played outside.''] 0 [] []
         = Inr (combined, prompts)
         \<and> prompts ! 0 = new_prompt demo_env (combined ! 0) (JString ''a sleepy cat'')
         \<and> prompts ! 1 = new_prompt demo_env (combined ! 1) (JString ''a sleepy cat''))"
proof -
  have s: "split_story
        (JString ''A cat woke up. It stretched. It yawned. Then it ate breakfast. It played outside.'')
       = Inr [''A cat woke up'', ''It stretched'', ''It yawned'', ''Then it ate breakfast'',
              ''It played outside.'']"
    by code_simp
  have n: "[JString ''a sleepy cat''] \<noteq> []" by simp
  have c: "length [JString ''a sleepy cat'']
       < page_count [''A cat woke up'', ''It stretched'', ''It yawned'', ''Then it ate breakfast'',
              ''It played outside.'']"
    by (simp add: page_count_def)
  have two: "page_count [''A cat woke up'', ''It stretched'', ''It yawned'',
      ''Then it ate breakfast'', ''It played outside.''] = 2"
    by (simp add: page_count_def)
  from prompt_shortfall_uses_last [OF n s c, of demo_env]
  obtain combined prompts where
    r: "combine_sentences demo_env (JArray [JString ''a sleepy cat''])
           [''A cat woke up'', ''It stretched'', ''It yawned'', ''Then it ate breakfast'',
            ''It played outside.''] 0 [] [] = Inr (combined, prompts)"
    and a: "\<forall>k<2. (k < 1 \<longrightarrow> prompts ! k = new_prompt demo_env (combined ! k) (JString ''a sleepy cat''))
              \<and> (1 \<le> k \<longrightarrow> select_prompt (JArray [JString ''a sleepy cat'']) k = Inr (JString ''a sleepy cat'')
                    \<and> prompts ! k = new_prompt demo_env (combined ! k) (JString ''a sleepy cat''))"
    unfolding two by auto
  from a [THEN spec, of 0]
  have "prompts ! 0 = new_prompt demo_env (combined ! 0) (JString ''a sleepy cat'')"
    by simp
  moreover from a [THEN spec, of 1] have "select_prompt (JArray [JString ''a sleepy cat'']) 1 = Inr (JString ''a sleepy cat'')
      \<and> prompts ! 1 = new_prompt demo_env (combined ! 1) (JString ''a sleepy cat'')"
    by simp
  ultimately show ?thesis using r s n c by blast
qed

text \<open>
  C10. With an empty list of image prompts the selection \<^verbatim>\<open>image_prompts[-1]\<close> raises
  \<open>IndexError\<close> on the first group of every narrative, so the first loop, and with it
  \<open>process_text\<close>, fails before anything is created; the selection succeeds for every
  page exactly when the list has an entry.
\<close>

theorem empty_prompts_raise_index_error:
  assumes "split_story (JString story) = Inr sentences"
  shows "select_prompt (JArray []) 0 = Inl IndexError
     \<and> combine_sentences env (JArray []) sentences 0 [] [] = Inl IndexError
     \<and> (extract_story_elements text = Inr (JString title, JString story, moral, JArray [])
          \<longrightarrow> process_text env text w = (Inl IndexError, w))
     \<and> ((\<exists>p. select_prompt (JArray ps) k = Inr p) \<longleftrightarrow> ps \<noteq> [])"
proof -
  from assms have "sentences = split_from ''. '' [] story"
    by (simp add: split_story_def py_split_def)
  then have "sentences \<noteq> []"
    using split_from_nonempty [of "''. ''" "[]" story] by simp
  then have i: "0 < length sentences" by simp
  have d: "0 div 3 = (0::nat)" by simp
  have run: "combine_sentences env (JArray []) sentences 0 [] [] = Inl IndexError"
    using combine_sentences_raise [OF i, of "JArray []" IndexError env "[]" "[]"]
    by (simp add: select_prompt_empty)
  have safe: "(\<exists>p. select_prompt (JArray ps) k = Inr p) \<longleftrightarrow> ps \<noteq> []"
    by (cases "ps = []") (simp_all add: select_prompt_empty select_prompt_list)
  show ?thesis
    using run safe assms
    by (simp add: select_prompt_empty process_text_def sanitize_title_def)
qed

theorem empty_prompts_raise_index_error_witness:
  \<open>split_story (JString ''A. B'') = Inr [''A'', ''B'']
   \<and> extract_story_elements ''{"title": "T", "story": "A. B", "moral": "M", "imagePrompts": []}''
       = Inr (JString ''T'', JString ''A. B'', JString ''M'', JArray [])
   \<and> combine_sentences demo_env (JArray []) [''A'', ''B''] 0 [] [] = Inl IndexError
   \<and> process_text demo_env
        ''{"title": "T", "story": "A. B", "moral": "M", "imagePrompts": []}'' empty_world
       = (Inl IndexError, empty_world)\<close>
proof -
  have s: "split_story (JString ''A. B'') = Inr [''A'', ''B'']" by code_simp
  have e: \<open>extract_story_elements ''{"title": "T", "story": "A. B", "moral": "M", "imagePrompts": []}''
       = Inr (JString ''T'', JString ''A. B'', JString ''M'', JArray [])\<close>
    by code_simp
  from empty_prompts_raise_index_error [OF s, of demo_env _ "''T''" "JString ''M''" empty_world]
    s e show ?thesis by simp
qed

text \<open>
  C6 (as the code has it). No narrative has zero sentences: \<open>split\<close> always returns at
  least one piece, and for the empty narrative it returns the one empty sentence. With at
  least one image prompt the first loop then makes exactly one page, with an empty text
  and the first prompt; nothing fails.
\<close>

theorem empty_narrative_one_page:
  "split_story (JString []) = Inr [[]]
   \<and> (\<exists>sentences. split_story (JString story) = Inr sentences \<and> sentences \<noteq> [])
   \<and> (ps \<noteq> [] \<longrightarrow>
        combine_sentences env (JArray ps) [[]] 0 [] [] = Inr ([[]], [new_prompt env [] (hd ps)]))"
proof -
  have a: "split_story (JString []) = Inr [[]]"
    by (simp add: split_story_def py_split_def split_from.simps)
  have b: "\<exists>sentences. split_story (JString story) = Inr sentences \<and> sentences \<noteq> []"
    by (simp add: split_story_def py_split_def split_from_nonempty)
  have c: "combine_sentences env (JArray ps) [[]] 0 [] [] = Inr ([[]], [new_prompt env [] (hd ps)])"
    if "ps \<noteq> []"
    using that by (rule combine_sentences_empty_story)
  from a b c show ?thesis by blast
qed

theorem empty_narrative_one_page_witness:
  "[JString ''p''] \<noteq> []
   \<and> combine_sentences demo_env (JArray [JString ''p'']) [[]] 0 [] []
       = Inr ([[]], [new_prompt demo_env [] (JString ''p'')])"
  using empty_narrative_one_page [of "[]" "[JString ''p'']" demo_env] by simp

section \<open>Building the storybook\<close>

lemma generate_image_dirs: "dirs (snd (generate_image env model prompt neg title i w)) = dirs w"
  by (simp add: generate_image_def Let_def split: sum.splits)

lemma generate_images_dirs:
  "dirs (snd (generate_images env title i prompts paths w)) = dirs w"
proof (induction prompts arbitrary: i paths w)
  case Nil
  then show ?case by simp
next
  case (Cons p ps)
  obtain r w1 where g: "generate_image env (IMAGE_MODELS ! 0) p [] title i w = (r, w1)"
    by (cases "generate_image env (IMAGE_MODELS ! 0) p [] title i w") auto
  then have "dirs w1 = dirs w"
    using generate_image_dirs [of env "IMAGE_MODELS ! 0" p "[]" title i w] by simp
  with Cons g show ?case by (cases r) auto
qed

lemma generate_images_success:
  "generate_images env title i prompts paths w = (Inr result, w') \<Longrightarrow>
   \<exists>new. result = paths @ new \<and> length new = length prompts
     \<and> (\<forall>k<length prompts.
           provider env (IMAGE_MODELS ! 0) (prompts ! k) [] title (i + k) = Inr (new ! k))"
proof (induction prompts arbitrary: i paths w)
  case Nil
  then show ?case by simp
next
  case (Cons p ps)
  show ?case
  proof (cases "provider env (IMAGE_MODELS ! 0) p [] title i")
    case (Inl e)
    with Cons.prems show ?thesis by (simp add: generate_image_def Let_def)
  next
    case (Inr path)
    with Cons.prems obtain w1 where
      "generate_images env title (Suc i) ps (paths @ [path]) w1 = (Inr result, w')"
      by (auto simp: generate_image_def Let_def)
    from Cons.IH [OF this] obtain new where new: "result = (paths @ [path]) @ new"
      "length new = length ps"
      "\<forall>k<length ps. provider env (IMAGE_MODELS ! 0) (ps ! k) [] title (Suc i + k) = Inr (new ! k)"
      by blast
    have "\<forall>k<length (p # ps).
           provider env (IMAGE_MODELS ! 0) ((p # ps) ! k) [] title (i + k) = Inr ((path # new) ! k)"
    proof (intro allI impI)
      fix k assume "k < length (p # ps)"
      then show "provider env (IMAGE_MODELS ! 0) ((p # ps) ! k) [] title (i + k) = Inr ((path # new) ! k)"
        using new(3) Inr by (cases k) auto
    qed
    with new(1,2) show ?thesis
      by (intro exI [of _ "path # new"]) simp
  qed
qed

lemma add_text_to_image_dirs:
  "dirs (snd (add_text_to_image env image_path text output_path w)) = dirs w"
  by (simp add: add_text_to_image_def split: sum.splits option.splits)

lemma shutil_move_dirs: "dirs (snd (shutil_move env src dst w)) = dirs w"
  by (simp add: shutil_move_def split: option.splits)

lemma compose_pages_dirs:
  "dirs (snd (compose_pages env out i pairs acc w)) = dirs w"
proof (induction pairs arbitrary: i acc w)
  case Nil
  then show ?case by simp
next
  case (Cons pr rest)
  obtain chunk image_path where pr: "pr = (chunk, image_path)" by (cases pr)
  obtain r w1 where a: "add_text_to_image env image_path chunk (page_name i) w = (r, w1)"
    by (cases "add_text_to_image env image_path chunk (page_name i) w") auto
  then have d1: "dirs w1 = dirs w"
    using add_text_to_image_dirs [of env image_path chunk "page_name i" w] by simp
  show ?case
  proof (cases r)
    case (Inl e)
    with a d1 show ?thesis by (simp add: pr)
  next
    case (Inr story_with_image)
    obtain r2 w2 where m: "shutil_move env story_with_image (path_join out (page_name i)) w1 = (r2, w2)"
      by (cases "shutil_move env story_with_image (path_join out (page_name i)) w1") auto
    then have d2: "dirs w2 = dirs w1"
      using shutil_move_dirs [of env story_with_image "path_join out (page_name i)" w1] by simp
    show ?thesis
      using a Inr m d1 d2 Cons.IH by (cases r2) (auto simp: pr Let_def)
  qed
qed

lemma compose_pages_success:
  "compose_pages env out i pairs acc w = (Inr pages, w') \<Longrightarrow>
   pages = acc @ map (\<lambda>k. path_join out (page_name k)) [i..<i + length pairs]
   \<and> (\<forall>k<length pairs. \<exists>wrapped_text.
         textwrap_fill (fst (pairs ! k)) 40 = Inr wrapped_text
         \<and> pil_error env (snd (pairs ! k)) wrapped_text (page_name (i + k)) = None
         \<and> move_error env (page_name (i + k)) (path_join out (page_name (i + k))) = None)"
proof (induction pairs arbitrary: i acc w)
  case Nil
  then show ?case by simp
next
  case (Cons pr rest)
  obtain chunk image_path where pr: "pr = (chunk, image_path)" by (cases pr)
  from Cons.prems obtain wrapped_text where
    t: "textwrap_fill chunk 40 = Inr wrapped_text"
    and p: "pil_error env image_path wrapped_text (page_name i) = None"
    by (auto simp: pr add_text_to_image_def split: sum.splits option.splits)
  then have a: "add_text_to_image env image_path chunk (page_name i) w
          = (Inr (page_name i), w\<lparr>files := List.insert (page_name i) (files w)\<rparr>)"
    by (simp add: add_text_to_image_def)
  from Cons.prems a have
    m: "move_error env (page_name i) (path_join out (page_name i)) = None"
    by (auto simp: pr Let_def shutil_move_def split: option.splits)
  with Cons.prems a obtain w2 where
    "compose_pages env out (Suc i) rest (acc @ [path_join out (page_name i)]) w2 = (Inr pages, w')"
    by (auto simp: pr Let_def shutil_move_def)
  from Cons.IH [OF this] have
    ih1: "pages = (acc @ [path_join out (page_name i)])
            @ map (\<lambda>k. path_join out (page_name k)) [Suc i..<Suc i + length rest]"
    and ih2: "\<forall>k<length rest. \<exists>wrapped_text.
         textwrap_fill (fst (rest ! k)) 40 = Inr wrapped_text
         \<and> pil_error env (snd (rest ! k)) wrapped_text (page_name (Suc i + k)) = None
         \<and> move_error env (page_name (Suc i + k)) (path_join out (page_name (Suc i + k))) = None"
    by blast+
  have "\<forall>k<length (pr # rest). \<exists>wrapped_text.
         textwrap_fill (fst ((pr # rest) ! k)) 40 = Inr wrapped_text
         \<and> pil_error env (snd ((pr # rest) ! k)) wrapped_text (page_name (i + k)) = None
         \<and> move_error env (page_name (i + k)) (path_join out (page_name (i + k))) = None"
  proof (intro allI impI)
    fix k assume "k < length (pr # rest)"
    then show "\<exists>wrapped_text.
         textwrap_fill (fst ((pr # rest) ! k)) 40 = Inr wrapped_text
         \<and> pil_error env (snd ((pr # rest) ! k)) wrapped_text (page_name (i + k)) = None
         \<and> move_error env (page_name (i + k)) (path_join out (page_name (i + k))) = None"
      using ih2 t p m by (cases k) (auto simp: pr)
  qed
  moreover have "pages = acc @ map (\<lambda>k. path_join out (page_name k)) [i..<i + length (pr # rest)]"
    using ih1 by (simp add: upt_conv_Cons del: upt_Suc)
  ultimately show ?case by blast
qed

lemma combine_sentences_lengths:
  assumes "combine_sentences env image_prompts sentences 0 [] [] = Inr (cs, nps)"
  shows "cs = map (page_text sentences) [0..<page_count sentences]
         \<and> length nps = page_count sentences
         \<and> (\<forall>k<page_count sentences. \<exists>p. select_prompt image_prompts k = Inr p
               \<and> nps ! k = new_prompt env (page_text sentences k) p)"
proof -
  define f where "f k = projr (select_prompt image_prompts k)" for k
  have z: "combine_sentences env image_prompts sentences (3 * 0) [] [] = Inr (cs, nps)"
    using assms by simp
  have sel: "\<forall>k. 0 \<le> k \<and> k < page_count sentences \<longrightarrow> select_prompt image_prompts k = Inr (f k)"
    using combine_sentences_inverse [OF z] by (fastforce simp: f_def)
  from combine_sentences_success [OF sel, of env "[]" "[]"] z
  have cs: "cs = map (page_text sentences) [0..<page_count sentences]"
    and nps: "nps = map (\<lambda>k. new_prompt env (page_text sentences k) (f k)) [0..<page_count sentences]"
    by simp_all
  from sel nps have "\<forall>k<page_count sentences. \<exists>p. select_prompt image_prompts k = Inr p
               \<and> nps ! k = new_prompt env (page_text sentences k) p"
    by simp
  with cs nps show ?thesis by simp
qed

lemma makedirs_result:
  "makedirs env path w = (r, w1) \<Longrightarrow>
   (makedirs_error env path = None \<longrightarrow> r = Inr () \<and> path \<in> set (dirs w1))
   \<and> (\<forall>e. makedirs_error env path = Some e \<longrightarrow> r = Inl e \<and> w1 = w)"
  by (auto simp: makedirs_def split: option.splits)

lemma build_storybook_keeps_directory:
  assumes "makedirs_error env (output_dir env title) = None"
  shows "output_dir env title \<in> set (dirs (snd (build_storybook env title cs nps w)))"
proof -
  obtain r w1 where m: "makedirs env (output_dir env title) w = (r, w1)"
    by (cases "makedirs env (output_dir env title) w") auto
  from makedirs_result [OF m] assms have r: "r = Inr ()" and d1: "output_dir env title \<in> set (dirs w1)"
    by simp_all
  obtain g w2 where g: "generate_images env title 0 nps [] w1 = (g, w2)"
    by (cases "generate_images env title 0 nps [] w1") auto
  then have d2: "dirs w2 = dirs w1"
    using generate_images_dirs [of env title 0 nps "[]" w1] by simp
  show ?thesis
  proof (cases g)
    case (Inl e)
    with m r g d1 d2 show ?thesis by (simp add: build_storybook_def)
  next
    case (Inr paths)
    obtain c w3 where c: "compose_pages env (output_dir env title) 0 (zip cs paths) [] w2 = (c, w3)"
      by (cases "compose_pages env (output_dir env title) 0 (zip cs paths) [] w2") auto
    then have "dirs w3 = dirs w2"
      using compose_pages_dirs [of env "output_dir env title" 0 "zip cs paths" "[]" w2] by simp
    with m r g Inr c d1 d2 show ?thesis
      by (cases c) (auto simp: build_storybook_def)
  qed
qed

lemma build_storybook_success:
  assumes "build_storybook env title cs nps w = (Inr (pages, out, t), w')"
    and "length nps = length cs"
  shows "out = output_dir env title \<and> t = title
         \<and> pages = map (\<lambda>k. path_join out (page_name k)) [0..<length cs]
         \<and> (\<forall>k<length cs. \<not> page_fails env title k (nps ! k) (cs ! k))"
proof -
  obtain r w1 where m: "makedirs env (output_dir env title) w = (r, w1)"
    by (cases "makedirs env (output_dir env title) w") auto
  obtain g w2 where g: "generate_images env title 0 nps [] w1 = (g, w2)"
    by (cases "generate_images env title 0 nps [] w1") auto
  from assms(1) m g obtain paths where paths: "g = Inr paths"
    by (cases r; cases g) (auto simp: build_storybook_def)
  obtain c w3 where c: "compose_pages env (output_dir env title) 0 (zip cs paths) [] w2 = (c, w3)"
    by (cases "compose_pages env (output_dir env title) 0 (zip cs paths) [] w2") auto
  from assms(1) m g paths c have res: "c = Inr pages" "out = output_dir env title" "t = title"
    by (cases r; cases c; auto simp: build_storybook_def)+
  from generate_images_success [OF g [unfolded paths]]
  have len: "length paths = length nps"
    and prov: "\<forall>k<length nps. provider env (IMAGE_MODELS ! 0) (nps ! k) [] title k = Inr (paths ! k)"
    by auto
  from len assms(2) have lz: "length (zip cs paths) = length cs" by simp
  from compose_pages_success [OF c [unfolded res(1)]] lz
  have pg: "pages = map (\<lambda>k. path_join (output_dir env title) (page_name k)) [0..<length cs]"
    and ok: "\<forall>k<length cs. \<exists>wrapped_text.
         textwrap_fill (fst (zip cs paths ! k)) 40 = Inr wrapped_text
         \<and> pil_error env (snd (zip cs paths ! k)) wrapped_text (page_name k) = None
         \<and> move_error env (page_name k) (path_join (output_dir env title) (page_name k)) = None"
    by auto
  have "\<forall>k<length cs. \<not> page_fails env title k (nps ! k) (cs ! k)"
  proof (intro allI impI)
    fix k assume k: "k < length cs"
    with ok len assms(2) obtain wrapped_text where
      "textwrap_fill (cs ! k) 40 = Inr wrapped_text"
      "pil_error env (paths ! k) wrapped_text (page_name k) = None"
      "move_error env (page_name k) (path_join (output_dir env title) (page_name k)) = None"
      by fastforce
    moreover from prov k assms(2)
    have "provider env (IMAGE_MODELS ! 0) (nps ! k) [] title k = Inr (paths ! k)" by simp
    ultimately show "\<not> page_fails env title k (nps ! k) (cs ! k)"
      by (simp add: page_fails_def)
  qed
  with pg res show ?thesis by simp
qed

lemma process_text_parsed:
  assumes "extract_story_elements text = Inr (title_raw, story, moral, image_prompts)"
    and "sanitize_title title_raw = Inr title"
    and "split_story story = Inr sentences"
    and "combine_sentences env image_prompts sentences 0 [] [] = Inr (cs, nps)"
  shows "process_text env text w = build_storybook env title cs nps w"
  using assms by (simp add: process_text_def)

lemma process_text_success:
  assumes "process_text env text w = (Inr result, w')"
  shows "\<exists>title_raw story moral image_prompts title sentences cs nps.
           extract_story_elements text = Inr (title_raw, story, moral, image_prompts)
         \<and> sanitize_title title_raw = Inr title
         \<and> split_story story = Inr sentences
         \<and> combine_sentences env image_prompts sentences 0 [] [] = Inr (cs, nps)
         \<and> build_storybook env title cs nps w = (Inr result, w')"
  using assms by (auto simp: process_text_def split: sum.splits prod.splits)

section \<open>Worked examples\<close>

lemma demo_env_calls:
  "makedirs_error demo_env path = None"
  "pil_error demo_env image_path wrapped_text output_path = None"
  "move_error demo_env src dst = None"
  "provider demo_env model prompt negative_prompt title i = Inr (''generated_'' @ str_nat i @ ''.png'')"
  by (simp_all add: demo_env_def)

lemma failing_env_calls:
  "makedirs_error failing_env path = None"
  "provider failing_env model prompt negative_prompt title i =
     (if i = 1 then Inl ProviderError else Inr (''generated_'' @ str_nat i @ ''.png''))"
  "clock failing_env = clock demo_env"
  by (simp_all add: failing_env_def demo_env_calls)

lemma demo_clock: "str_int (clock demo_env) = ''1700000000''"
  by (simp add: demo_env_def str_int_def str_nat.simps digit_char_def)

lemma demo_output_dir: "output_dir demo_env ''T'' = ''static/storybooks/T_1700000000''"
  by (simp add: output_dir_def folder_name_def demo_clock path_join3_def path_join_def
      py_replace_def)

lemma failing_output_dir: "output_dir failing_env ''T'' = ''static/storybooks/T_1700000000''"
  by (simp add: output_dir_def folder_name_def failing_env_calls demo_clock path_join3_def
      path_join_def py_replace_def)

lemma page_names: "page_name 0 = ''image_new_0.png''" "page_name (Suc 0) = ''image_new_1.png''"
  by (simp_all add: page_name_def str_nat.simps digit_char_def)

lemma fill_examples:
  "textwrap_fill [] 40 = Inr []"
  "textwrap_fill ''A. B. C'' 40 = Inr ''A. B. C''"
  "textwrap_fill ''D'' 40 = Inr ''D''"
  by code_simp+

lemma example_pages:
  "map (page_text [''A'', ''B'', ''C'', ''D'']) [0..<page_count [''A'', ''B'', ''C'', ''D'']]
     = [''A. B. C'', ''D'']"
  "page_count [''A'', ''B'', ''C'', ''D''] = 2"
  by code_simp+

lemma example_combine:
  "combine_sentences env (JArray [JString ''p'']) [''A'', ''B'', ''C'', ''D''] 0 [] [] =
     Inr ([''A. B. C'', ''D''],
          [new_prompt env ''A. B. C'' (JString ''p''), new_prompt env ''D'' (JString ''p'')])"
proof -
  have u: "[0..<2] = [0, Suc 0]" by (simp add: upt_rec)
  have t: "page_text [''A'', ''B'', ''C'', ''D''] 0 = ''A. B. C''"
    "page_text [''A'', ''B'', ''C'', ''D''] (Suc 0) = ''D''"
    by (simp_all add: page_text_def page_sentences_def)
  show ?thesis
    by (simp add: combine_sentences_list example_pages(2) u t)
qed

text \<open>
  C6 (as the specification words it) fails on the code: the empty narrative is processed
  to the end and gives a storybook of one page.
\<close>

theorem empty_narrative_counterexample:
  \<open>fst (process_text demo_env
          ''{"title": "T", "story": "", "moral": "M", "imagePrompts": ["p"]}'' empty_world)
   = Inr ([''static/storybooks/T_1700000000/image_new_0.png''],
          ''static/storybooks/T_1700000000'', ''T'')\<close>
proof -
  have e: \<open>extract_story_elements ''{"title": "T", "story": "", "moral": "M", "imagePrompts": ["p"]}''
       = Inr (JString ''T'', JString [], JString ''M'', JArray [JString ''p''])\<close>
    by code_simp
  have t: "sanitize_title (JString ''T'') = Inr ''T''" by code_simp
  have s: "split_story (JString []) = Inr [[]]" by code_simp
  have c: "combine_sentences demo_env (JArray [JString ''p'']) [[]] 0 [] []
        = Inr ([[]], [new_prompt demo_env [] (JString ''p'')])"
    by (simp add: combine_sentences_empty_story)
  have "fst (build_storybook demo_env ''T'' [[]] [new_prompt demo_env [] (JString ''p'')] empty_world)
      = Inr ([''static/storybooks/T_1700000000/image_new_0.png''],
          ''static/storybooks/T_1700000000'', ''T'')"
    by (simp add: build_storybook_def makedirs_def demo_output_dir generate_image_def Let_def
        add_text_to_image_def fill_examples shutil_move_def page_names path_join_def
        demo_env_calls empty_world_def)
  then show ?thesis
    by (simp only: process_text_parsed [OF e t s c])
qed

section \<open>Failure and success of the whole call\<close>

text \<open>
  C7 (as the code has it). When the document is parsed and segmented, the output directory
  is created, and some page fails (its image, its overlay or its move), \<open>process_text\<close>
  ends with an exception, never with a list of pages; the output directory it created is
  still there when the exception leaves the call.
\<close>

theorem page_failure_fails_whole_call:
  assumes "extract_story_elements text = Inr (title_raw, story, moral, image_prompts)"
    and "sanitize_title title_raw = Inr title"
    and "split_story story = Inr sentences"
    and "combine_sentences env image_prompts sentences 0 [] [] = Inr (cs, nps)"
    and "makedirs_error env (output_dir env title) = None"
    and "k < length cs"
    and "page_fails env title k (nps ! k) (cs ! k)"
  shows "\<exists>e w'. process_text env text w = (Inl e, w')
           \<and> output_dir env title \<in> set (dirs w')"
proof -
  have p: "process_text env text w = build_storybook env title cs nps w"
    by (rule process_text_parsed [OF assms(1-4)])
  from combine_sentences_lengths [OF assms(4)] have len: "length nps = length cs" by simp
  obtain r w' where b: "build_storybook env title cs nps w = (r, w')"
    by (cases "build_storybook env title cs nps w") auto
  have "\<exists>e. r = Inl e"
  proof (cases r)
    case (Inl e)
    then show ?thesis by simp
  next
    case (Inr res)
    obtain pages out t where "res = (pages, out, t)" by (cases res) auto
    with b Inr have "build_storybook env title cs nps w = (Inr (pages, out, t), w')" by simp
    from build_storybook_success [OF this len] assms(6,7) show ?thesis by blast
  qed
  moreover have "output_dir env title \<in> set (dirs w')"
    using build_storybook_keeps_directory [OF assms(5), of cs nps w] b by simp
  ultimately show ?thesis using p b by auto
qed

theorem page_failure_fails_whole_call_witness:
  \<open>extract_story_elements ''{"title": "T", "story": "A. B. C. D", "moral": "M", "imagePrompts": ["p"]}''
     = Inr (JString ''T'', JString ''A. B. C. D'', JString ''M'', JArray [JString ''p''])
   \<and> sanitize_title (JString ''T'') = Inr ''T''
   \<and> split_story (JString ''A. B. C. D'') = Inr [''A'', ''B'', ''C'', ''D'']
   \<and> makedirs_error failing_env (output_dir failing_env ''T'') = None
   \<and> page_fails failing_env ''T'' 1 (new_prompt failing_env ''D'' (JString ''p'')) ''D''
   \<and> (\<exists>e w'. process_text failing_env
          ''{"title": "T", "story": "A. B. C. D", "moral": "M", "imagePrompts": ["p"]}'' empty_world
          = (Inl e, w')
        \<and> output_dir failing_env ''T'' \<in> set (dirs w'))\<close>
proof -
  have e: \<open>extract_story_elements ''{"title": "T", "story": "A. B. C. D", "moral": "M", "imagePrompts": ["p"]}''
     = Inr (JString ''T'', JString ''A. B. C. D'', JString ''M'', JArray [JString ''p''])\<close>
    by code_simp
  have t: "sanitize_title (JString ''T'') = Inr ''T''" by code_simp
  have s: "split_story (JString ''A. B. C. D'') = Inr [''A'', ''B'', ''C'', ''D'']" by code_simp
  note c = example_combine [of failing_env]
  have m: "makedirs_error failing_env (output_dir failing_env ''T'') = None"
    by (simp add: failing_env_calls)
  have k: "1 < length [''A. B. C'', ''D'']" by simp
  have f: "page_fails failing_env ''T'' 1
      ([new_prompt failing_env ''A. B. C'' (JString ''p''),
        new_prompt failing_env ''D'' (JString ''p'')] ! 1) ([''A. B. C'', ''D''] ! 1)"
    by (simp add: page_fails_def failing_env_calls)
  from page_failure_fails_whole_call [OF e t s c m k f, of empty_world] e t s m f
  show ?thesis by simp
qed

text \<open>
  C7 (as the specification words it) fails on the code in its last part: nothing is cleaned
  up. When the provider fails on the second page, the call raises, and the directory and
  the first generated image are left behind.
\<close>

theorem page_failure_cleanup_counterexample:
  \<open>fst (process_text failing_env
          ''{"title": "T", "story": "A. B. C. D", "moral": "M", "imagePrompts": ["p"]}'' empty_world)
     = Inl ProviderError
   \<and> dirs (snd (process_text failing_env
          ''{"title": "T", "story": "A. B. C. D", "moral": "M", "imagePrompts": ["p"]}'' empty_world))
     = [''static/storybooks/T_1700000000'']
   \<and> files (snd (process_text failing_env
          ''{"title": "T", "story": "A. B. C. D", "moral": "M", "imagePrompts": ["p"]}'' empty_world))
     = [''generated_0.png'']\<close>
proof -
  have e: \<open>extract_story_elements ''{"title": "T", "story": "A. B. C. D", "moral": "M", "imagePrompts": ["p"]}''
     = Inr (JString ''T'', JString ''A. B. C. D'', JString ''M'', JArray [JString ''p''])\<close>
    by code_simp
  have t: "sanitize_title (JString ''T'') = Inr ''T''" by code_simp
  have s: "split_story (JString ''A. B. C. D'') = Inr [''A'', ''B'', ''C'', ''D'']" by code_simp
  note c = example_combine [of failing_env]
  show ?thesis
    by (simp only: process_text_parsed [OF e t s c])
       (simp add: build_storybook_def makedirs_def failing_output_dir generate_image_def Let_def
          failing_env_calls empty_world_def str_nat.simps digit_char_def)
qed

text \<open>
  C8. When \<open>process_text\<close> returns, the list it returns has one path for every page of
  the narrative, and the path at position \<open>k\<close> is the file of page \<open>k\<close> in the output
  directory: the pages are in the order of their indices, each index once.
\<close>

theorem process_text_manifest:
  assumes "process_text env text w = (Inr (pages, out, title), w')"
  shows "\<exists>title_raw story moral image_prompts sentences.
            extract_story_elements text = Inr (title_raw, story, moral, image_prompts)
          \<and> split_story story = Inr sentences
          \<and> sanitize_title title_raw = Inr title
          \<and> out = output_dir env title
          \<and> length pages = page_count sentences
          \<and> pages = map (\<lambda>k. path_join out (page_name k)) [0..<page_count sentences]"
proof -
  from process_text_success [OF assms] obtain title_raw story moral image_prompts t sentences cs nps
    where e: "extract_story_elements text = Inr (title_raw, story, moral, image_prompts)"
      and t: "sanitize_title title_raw = Inr t"
      and s: "split_story story = Inr sentences"
      and c: "combine_sentences env image_prompts sentences 0 [] [] = Inr (cs, nps)"
      and b: "build_storybook env t cs nps w = (Inr (pages, out, title), w')"
    by blast
  from combine_sentences_lengths [OF c] have len: "length nps = length cs"
    and n: "length cs = page_count sentences" by simp_all
  from build_storybook_success [OF b len] n e t s show ?thesis by auto
qed

theorem process_text_manifest_witness:
  \<open>process_text demo_env
      ''{"title": "T", "story": "A. B. C. D", "moral": "M", "imagePrompts": ["p"]}'' empty_world
     = (Inr ([''static/storybooks/T_1700000000/image_new_0.png'',
              ''static/storybooks/T_1700000000/image_new_1.png''],
             ''static/storybooks/T_1700000000'', ''T''),
        snd (process_text demo_env
          ''{"title": "T", "story": "A. B. C. D", "moral": "M", "imagePrompts": ["p"]}'' empty_world))
   \<and> (\<exists>sentences. split_story (JString ''A. B. C. D'') = Inr sentences
         \<and> page_count sentences = 2
         \<and> [''static/storybooks/T_1700000000/image_new_0.png'',
             ''static/storybooks/T_1700000000/image_new_1.png'']
            = map (\<lambda>k. path_join ''static/storybooks/T_1700000000'' (page_name k))
                [0..<page_count sentences])\<close>
proof -
  have e: \<open>extract_story_elements ''{"title": "T", "story": "A. B. C. D", "moral": "M", "imagePrompts": ["p"]}''
     = Inr (JString ''T'', JString ''A. B. C. D'', JString ''M'', JArray [JString ''p''])\<close>
    by code_simp
  have t: "sanitize_title (JString ''T'') = Inr ''T''" by code_simp
  have s: "split_story (JString ''A. B. C. D'') = Inr [''A'', ''B'', ''C'', ''D'']" by code_simp
  note c = example_combine [of demo_env]
  have f: \<open>fst (process_text demo_env
      ''{"title": "T", "story": "A. B. C. D", "moral": "M", "imagePrompts": ["p"]}'' empty_world)
     = Inr ([''static/storybooks/T_1700000000/image_new_0.png'',
              ''static/storybooks/T_1700000000/image_new_1.png''],
             ''static/storybooks/T_1700000000'', ''T'')\<close>
    by (simp only: process_text_parsed [OF e t s c])
       (simp add: build_storybook_def makedirs_def demo_output_dir generate_image_def Let_def
          add_text_to_image_def fill_examples shutil_move_def page_names path_join_def
          demo_env_calls empty_world_def)
  then have h: \<open>process_text demo_env
      ''{"title": "T", "story": "A. B. C. D", "moral": "M", "imagePrompts": ["p"]}'' empty_world
     = (Inr ([''static/storybooks/T_1700000000/image_new_0.png'',
              ''static/storybooks/T_1700000000/image_new_1.png''],
             ''static/storybooks/T_1700000000'', ''T''),
        snd (process_text demo_env
          ''{"title": "T", "story": "A. B. C. D", "moral": "M", "imagePrompts": ["p"]}'' empty_world))\<close>
    by (simp add: prod_eq_iff)
  from process_text_manifest [OF h] e s h show ?thesis
    by (auto simp: example_pages(2))
qed

section \<open>Text wrapping: the width of a line\<close>

lemma handle_long_word_fits:
  assumes "handle_long_word chunks cur_line cur_len width = (chunks', cur_line')"
    and "0 < width" and "cur_len = length (concat cur_line)" and "cur_len \<le> width"
  shows "length (concat cur_line') \<le> width"
proof -
  define space_left where "space_left = int width - int cur_len"
  define chunk where "chunk = hd chunks"
  define hyphen where "hyphen = py_rfind (py_slice chunk 0 space_left) (CHR ''-'')"
  have sl: "0 \<le> space_left" using assms(4) by (simp add: space_left_def)
  have "hyphen < int (length (py_slice chunk 0 space_left))"
    unfolding hyphen_def by (rule py_rfind_less)
  also have "\<dots> \<le> space_left"
    using sl by (simp add: py_slice_upto)
  finally have h: "hyphen + 1 \<le> space_left" by simp
  from assms(1,2) obtain e where
    e: "cur_line' = cur_line @ [py_slice chunk 0 e]" "e = hyphen + 1 \<and> 0 < hyphen \<or> e = space_left"
    by (auto simp: handle_long_word_def Let_def space_left_def chunk_def hyphen_def
        split: if_splits)
  from e(2) h sl have e0: "0 \<le> e" and e1: "e \<le> space_left" by auto
  have "length (py_slice chunk 0 e) \<le> nat e"
    using e0 by (simp add: py_slice_upto)
  also have "\<dots> \<le> width - cur_len"
    using e1 assms(4) by (simp add: space_left_def)
  finally show ?thesis
    using assms(3,4) by (simp add: e(1))
qed

lemma handle_long_word_chars:
  assumes "handle_long_word chunks cur_line cur_len width = (chunks', cur_line')"
    and "chunks \<noteq> []"
  shows "set (concat cur_line') \<subseteq> set (concat cur_line) \<union> set (concat chunks)"
proof -
  from assms(1) obtain e where "cur_line' = cur_line @ [py_slice (hd chunks) 0 e]"
    by (auto simp: handle_long_word_def Let_def)
  moreover have "set (py_slice (hd chunks) 0 e) \<subseteq> set (hd chunks)"
    by (auto simp: py_slice_def Let_def dest: in_set_takeD in_set_dropD)
  moreover have "set (hd chunks) \<subseteq> set (concat chunks)"
    using assms(2) by (cases chunks) auto
  ultimately show ?thesis by auto
qed

lemma wrap_line_result:
  assumes "wrap_line width lines chunks = (lines', chunks')" and "chunks \<noteq> []"
  shows "\<exists>cur_line. (lines' = lines \<or> lines' = lines @ [concat cur_line])
           \<and> (0 < width \<longrightarrow> length (concat cur_line) \<le> width)
           \<and> set (concat cur_line) \<subseteq> set (concat chunks)"
proof -
  define chunks1 where "chunks1 = (if is_blank (hd chunks) \<and> lines \<noteq> [] then tl chunks else chunks)"
  obtain cur_line cur_len chunks2 where f: "fill_line width [] 0 chunks1 = (cur_line, cur_len, chunks2)"
    by (cases "fill_line width [] 0 chunks1") auto
  define r where "r = (if chunks2 \<noteq> [] \<and> length (hd chunks2) > width
             then handle_long_word chunks2 cur_line cur_len width
             else (chunks2, cur_line))"
  define cur_line2 where "cur_line2 =
      (if snd r \<noteq> [] \<and> is_blank (last (snd r)) then butlast (snd r) else snd r)"
  have res: "lines' = (if cur_line2 \<noteq> [] then lines @ [concat cur_line2] else lines)"
    using assms(1)
    by (simp add: wrap_line_def Let_def f [unfolded chunks1_def] r_def cur_line2_def
          case_prod_beta cong: if_cong)
  from fill_line_props [OF f] have app: "chunks1 = cur_line @ chunks2"
    and len: "cur_len = length (concat cur_line)" and le: "cur_len \<le> width"
    by auto
  have sub1: "set (concat chunks1) \<subseteq> set (concat chunks)"
    using assms(2) by (cases chunks) (auto simp: chunks1_def)
  have fit: "0 < width \<longrightarrow> length (concat (snd r)) \<le> width"
  proof (cases "chunks2 \<noteq> [] \<and> length (hd chunks2) > width")
    case True
    then have "handle_long_word chunks2 cur_line cur_len width = (fst r, snd r)"
      by (simp add: r_def)
    from handle_long_word_fits [OF this _ len le] show ?thesis by simp
  next
    case False
    then show ?thesis using len le by (auto simp: r_def)
  qed
  have chars: "set (concat (snd r)) \<subseteq> set (concat chunks1)"
  proof (cases "chunks2 \<noteq> [] \<and> length (hd chunks2) > width")
    case True
    then have "handle_long_word chunks2 cur_line cur_len width = (fst r, snd r)"
      by (simp add: r_def)
    from handle_long_word_chars [OF this] True show ?thesis by (auto simp: app)
  next
    case False
    then show ?thesis by (auto simp: r_def app)
  qed
  have shorter: "length (concat cur_line2) \<le> length (concat (snd r))"
    and fewer: "set (concat cur_line2) \<subseteq> set (concat (snd r))"
    by (cases "snd r" rule: rev_cases; auto simp: cur_line2_def)+
  from fit shorter have "0 < width \<longrightarrow> length (concat cur_line2) \<le> width" by auto
  moreover from fewer chars sub1 have "set (concat cur_line2) \<subseteq> set (concat chunks)" by blast
  ultimately show ?thesis using res by (intro exI [of _ cur_line2]) auto
qed

lemma wrap_line_chunks_chars:
  assumes "wrap_line width lines chunks = (lines', chunks')" and "chunks \<noteq> []"
  shows "set (concat chunks') \<subseteq> set (concat chunks)"
proof -
  define chunks1 where "chunks1 = (if is_blank (hd chunks) \<and> lines \<noteq> [] then tl chunks else chunks)"
  obtain cur_line cur_len chunks2 where f: "fill_line width [] 0 chunks1 = (cur_line, cur_len, chunks2)"
    by (cases "fill_line width [] 0 chunks1") auto
  define r where "r = (if chunks2 \<noteq> [] \<and> length (hd chunks2) > width
             then handle_long_word chunks2 cur_line cur_len width
             else (chunks2, cur_line))"
  have res: "chunks' = fst r"
    using assms(1)
    by (simp add: wrap_line_def Let_def f [unfolded chunks1_def] r_def case_prod_beta
          cong: if_cong)
  from fill_line_props [OF f] have app: "chunks1 = cur_line @ chunks2" by simp
  have sub1: "set (concat chunks1) \<subseteq> set (concat chunks)"
    using assms(2) by (cases chunks) (auto simp: chunks1_def)
  have "set (concat (fst r)) \<subseteq> set (concat chunks2)"
  proof (cases "chunks2 \<noteq> [] \<and> length (hd chunks2) > width")
    case True
    then obtain c cs where c: "chunks2 = c # cs" by (cases chunks2) auto
    from True obtain e where "fst r = py_slice c e (int (length c)) # cs"
      by (auto simp: r_def handle_long_word_def Let_def c)
    moreover have "set (py_slice c e (int (length c))) \<subseteq> set c"
      by (auto simp: py_slice_def Let_def dest: in_set_takeD in_set_dropD)
    ultimately show ?thesis by (auto simp: c)
  next
    case False
    then show ?thesis by (auto simp: r_def)
  qed
  moreover have "set (concat chunks2) \<subseteq> set (concat chunks1)"
    unfolding app by auto
  ultimately show ?thesis
    using sub1 unfolding res by blast
qed

lemma wrap_chunks_lines:
  "0 < width \<Longrightarrow> (\<forall>l\<in>set lines. length l \<le> width \<and> set l \<subseteq> A) \<Longrightarrow>
   set (concat chunks) \<subseteq> A \<Longrightarrow>
   \<forall>l\<in>set (wrap_chunks width lines chunks). length l \<le> width \<and> set l \<subseteq> A"
proof (induction width lines chunks rule: wrap_chunks.induct)
  case (1 width lines chunks)
  show ?case
  proof (cases "chunks = []")
    case True
    with 1 show ?thesis by (simp add: wrap_chunks.simps)
  next
    case False
    obtain lines' chunks' where w: "wrap_line width lines chunks = (lines', chunks')"
      by (cases "wrap_line width lines chunks") auto
    from wrap_line_result [OF w False] obtain cur_line where
      l: "lines' = lines \<or> lines' = lines @ [concat cur_line]"
      and b: "0 < width \<longrightarrow> length (concat cur_line) \<le> width"
      and c: "set (concat cur_line) \<subseteq> set (concat chunks)"
      by blast
    from b "1.prems"(1) have b': "length (concat cur_line) \<le> width" by simp
    from c "1.prems"(3) have c': "set (concat cur_line) \<subseteq> A" by blast
    have a1: "\<forall>l\<in>set lines'. length l \<le> width \<and> set l \<subseteq> A"
    proof
      fix x assume "x \<in> set lines'"
      with l have "x \<in> set lines \<or> x = concat cur_line" by auto
      then show "length x \<le> width \<and> set x \<subseteq> A"
        using "1.prems"(2) b' c' by blast
    qed
    have a2: "set (concat chunks') \<subseteq> A"
      using wrap_line_chunks_chars [OF w False] "1.prems"(3) by blast
    have "wrap_chunks width lines chunks = wrap_chunks width lines' chunks'"
      using False w by (subst wrap_chunks.simps) simp
    with "1.IH" [OF False w [symmetric] "1.prems"(1) a1 a2] show ?thesis by simp
  qed
qed

lemma set_expandtabs: "set (expandtabs tabsize col s) \<subseteq> insert (CHR '' '') (set s - {CHR 0x09})"
  by (induction s arbitrary: col) (auto simp: Let_def)

lemma munge_no_newline: "CHR 0x0A \<notin> set (munge_whitespace s)"
  by (auto simp: munge_whitespace_def is_tw_space_def)

lemma set_split_chunks: "set (concat (split_chunks seen s)) \<subseteq> set s"
proof (induction seen s rule: split_chunks.induct)
  case (1 seen s)
  show ?case
  proof (cases "s = []")
    case True
    then show ?thesis by (simp add: split_chunks.simps)
  next
    case False
    let ?n = "chunk_length seen s"
    have "set (concat (split_chunks (rev (take ?n s) @ seen) (drop ?n s))) \<subseteq> set (drop ?n s)"
      using "1.IH" [OF False refl] .
    moreover have "split_chunks seen s = take ?n s # split_chunks (rev (take ?n s) @ seen) (drop ?n s)"
      using False by (subst split_chunks.simps) (simp add: Let_def)
    ultimately show ?thesis
      by (auto dest: in_set_takeD in_set_dropD)
  qed
qed

text \<open>
  C5 (as the code has it). The text \<open>add_text_to_image\<close> draws is
  \<^verbatim>\<open>textwrap.fill(text, width=40)\<close>, which never fails; it is the lines of
  \<open>textwrap.wrap\<close> joined by line breaks, and every one of these lines has at most 40
  characters, whatever the text: a word longer than the width is broken to fit.
\<close>

theorem overlay_lines_fit:
  "\<exists>lines. textwrap_wrap text 40 = Inr lines
      \<and> textwrap_fill text 40 = Inr (py_join [CHR 0x0A] lines)
      \<and> (\<forall>line\<in>set lines. length line \<le> 40 \<and> CHR 0x0A \<notin> set line)
      \<and> add_text_to_image env image_path text output_path w =
          (case pil_error env image_path (py_join [CHR 0x0A] lines) output_path of
             Some e \<Rightarrow> (Inl e, w)
           | None \<Rightarrow> (Inr output_path, w\<lparr>files := List.insert output_path (files w)\<rparr>))"
proof -
  let ?chunks = "split_chunks [] (munge_whitespace text)"
  let ?lines = "wrap_chunks 40 [] ?chunks"
  have w: "textwrap_wrap text 40 = Inr ?lines"
    by (simp add: textwrap_wrap_def)
  have "set (concat ?chunks) \<subseteq> set (munge_whitespace text)"
    by (rule set_split_chunks)
  from wrap_chunks_lines [OF _ _ this, of 40 "[]"]
  have "\<forall>l\<in>set ?lines. length l \<le> 40 \<and> set l \<subseteq> set (munge_whitespace text)"
    by simp
  then have "\<forall>line\<in>set ?lines. length line \<le> 40 \<and> CHR 0x0A \<notin> set line"
    using munge_no_newline by blast
  with w show ?thesis
    by (simp add: textwrap_fill_def add_text_to_image_def)
qed

theorem overlay_lines_fit_witness:
  "textwrap_wrap ''The quick brown fox jumps over the lazy dog again and again.'' 40
     = Inr [''The quick brown fox jumps over the lazy'', ''dog again and again.'']
   \<and> length ''The quick brown fox jumps over the lazy'' = 39
   \<and> length ''dog again and again.'' = 20"
proof -
  have a: "textwrap_wrap ''The quick brown fox jumps over the lazy dog again and again.'' 40
     = Inr [''The quick brown fox jumps over the lazy'', ''dog again and again.'']"
    by code_simp
  from overlay_lines_fit [of "''The quick brown fox jumps over the lazy dog again and again.''"]
  obtain lines where
    "textwrap_wrap ''The quick brown fox jumps over the lazy dog again and again.'' 40 = Inr lines"
    "\<forall>line\<in>set lines. length line \<le> 40 \<and> CHR 0x0A \<notin> set line"
    by blast
  with a show ?thesis by simp
qed

text \<open>
  C5 (as the specification words it) fails on the code: a word of 41 letters is split
  after its 40th letter, inside the word, and is not left as one oversized line; a
  hyphenated word is broken after its hyphen.
\<close>

theorem overlay_long_word_counterexample:
  "textwrap_fill (replicate 41 (CHR ''a'')) 40
     = Inr (replicate 40 (CHR ''a'') @ [CHR 0x0A] @ ''a'')
   \<and> textwrap_wrap (replicate 41 (CHR ''a'')) 40 \<noteq> Inr [replicate 41 (CHR ''a'')]
   \<and> textwrap_wrap ''a well-known fact that everybody well-knows'' 40
     = Inr [''a well-known fact that everybody well-'', ''knows'']"
  by code_simp

end
